theory Spec2Isabelle
  imports Complex_Main
begin

section \<open>Python values: errors and binary64 numbers\<close>

text \<open>
  The dashboard is one Python module, \<^verbatim>\<open>marketing_dashboard.py\<close>. Its functions are
  embedded one by one, in the order of the source. What a function reads from outside
  the module is an explicit argument of the embedding:
  \<^item> the numpy random generator (\<^verbatim>\<open>np.random.default_rng\<close>), whose draws are not fixed
    by the module, is a record of operations over a generator state;
  \<^item> the clock read by \<^verbatim>\<open>datetime.now()\<close> is a \<open>datetime\<close> value;
  \<^item> the built-in \<^verbatim>\<open>hash\<close> of a string, which changes from process to process, is a
    function.
  A Python exception is the \<open>Inl\<close> branch of a sum.
\<close>

datatype py_error = ZeroDivisionError | ValueError | IndexError | KeyError | OverflowError

text \<open>
  A Python \<^verbatim>\<open>float\<close> (and a numpy \<^verbatim>\<open>float64\<close>) is a binary64 number. It is modelled
  by the real number it denotes, and every arithmetic operation rounds its exact result
  to the nearest number with a 53-bit significand, ties to the even significand
  (\<open>fl\<close>). The exponent range is not bounded: overflow to infinity, the
  \<^verbatim>\<open>OverflowError\<close> of converting or dividing integers whose result is beyond the
  range, gradual underflow and the sign of zero are outside the model. The numbers of
  this program (counts up to a few millions, ratios between 0.006 and 1.15, percentages)
  are far from both ends of the range. A theorem about a function that takes integers
  from its caller and converts or divides them (\<^verbatim>\<open>pct_prev\<close>, \<^verbatim>\<open>fmt_int\<close>,
  \<^verbatim>\<open>make_3_months_kpis\<close>) is stated for integers of a bounded magnitude, for which the
  model and binary64 agree.
\<close>

fun bit_length :: "nat \<Rightarrow> nat" where
  "bit_length n = (if n = 0 then 0 else Suc (bit_length (n div 2)))"

declare bit_length.simps [simp del]

definition rne :: "real \<Rightarrow> int" where
  \<comment> \<open>round to the nearest integer, a tie to the even one\<close>
  "rne y = (let f = \<lfloor>y\<rfloor>; d = y - of_int f
            in if d < 1/2 then f else if 1/2 < d then f + 1
               else if even f then f else f + 1)"

definition ilog2 :: "real \<Rightarrow> int" where
  \<comment> \<open>the binary exponent of a positive number: \<open>2 ^ e \<le> x < 2 ^ (e + 1)\<close>\<close>
  "ilog2 x = (if 1 \<le> x then int (bit_length (nat \<lfloor>x\<rfloor>)) - 1
              else - int (bit_length (nat (\<lceil>1 / x\<rceil> - 1))))"

definition fl :: "real \<Rightarrow> real" where
  "fl x = (if x = 0 then 0
           else let u = 2 powi (ilog2 \<bar>x\<bar> - 52)
                in of_int (rne (x / u)) * u)"

definition fadd :: "real \<Rightarrow> real \<Rightarrow> real" where
  "fadd a b = fl (a + b)"

definition fmul :: "real \<Rightarrow> real \<Rightarrow> real" where
  "fmul a b = fl (a * b)"

definition fdiv :: "real \<Rightarrow> real \<Rightarrow> real" where
  \<comment> \<open>float division by a divisor that is not zero\<close>
  "fdiv a b = fl (a / b)"

definition float_of_int :: "int \<Rightarrow> real" where
  "float_of_int c = fl (of_int c)"

definition py_int :: "real \<Rightarrow> int" where
  \<comment> \<open>\<^verbatim>\<open>int(x)\<close> of a float: truncation towards zero\<close>
  "py_int x = (if 0 \<le> x then \<lfloor>x\<rfloor> else \<lceil>x\<rceil>)"

definition astype_int :: "real \<Rightarrow> int" where
  \<comment> \<open>\<^verbatim>\<open>.astype(int)\<close>: truncation to a 64-bit integer; a value out of the range of
      \<^verbatim>\<open>int64\<close> gives the least \<^verbatim>\<open>int64\<close>, as numpy does on x86-64\<close>
  "astype_int x = (let t = py_int x
                   in if - (2 ^ 63) \<le> t \<and> t < 2 ^ 63 then t else - (2 ^ 63))"

definition clip :: "real \<Rightarrow> real \<Rightarrow> real \<Rightarrow> real" where
  \<comment> \<open>\<^verbatim>\<open>np.clip(a, a_min, a_max)\<close>\<close>
  "clip a a_min a_max = min a_max (max a a_min)"

definition int_truediv :: "int \<Rightarrow> int \<Rightarrow> py_error + real" where
  \<comment> \<open>\<^verbatim>\<open>a / b\<close> on Python integers: the exact quotient, rounded once; for a quotient
      within the range of binary64 (beyond it Python raises \<^verbatim>\<open>OverflowError\<close>)\<close>
  "int_truediv a b = (if b = 0 then Inl ZeroDivisionError
                      else Inr (fl (of_int a / of_int b)))"

text \<open>
  Dividing numpy integers does not raise: it converts both to \<^verbatim>\<open>float64\<close> and
  divides, and a zero divisor gives an infinity or NaN.
\<close>

datatype npfloat = Finite real | PosInf | NegInf | NaN

definition np_true_divide :: "int \<Rightarrow> int \<Rightarrow> npfloat" where
  "np_true_divide a b =
     (if b = 0 then (if a = 0 then NaN else if 0 < a then PosInf else NegInf)
      else Finite (fdiv (float_of_int a) (float_of_int b)))"

definition np_multiply :: "npfloat \<Rightarrow> real \<Rightarrow> npfloat" where
  "np_multiply x c =
     (case x of
        Finite v \<Rightarrow> Finite (fmul v c)
      | PosInf \<Rightarrow> (if c = 0 then NaN else if 0 < c then PosInf else NegInf)
      | NegInf \<Rightarrow> (if c = 0 then NaN else if 0 < c then NegInf else PosInf)
      | NaN \<Rightarrow> NaN)"

section \<open>Strings and number formatting\<close>

text \<open>
  A \<open>string\<close> is the UTF-8 encoding of the Python string: the letters outside ASCII of
  the source are written as their bytes.
\<close>

definition arrow :: string where
  \<comment> \<open>U+2192, the arrow of the KPI names\<close>
  "arrow = [CHR 0xE2, CHR 0x86, CHR 0x92]"

definition middot :: string where
  \<comment> \<open>U+00B7\<close>
  "middot = [CHR 0xC2, CHR 0xB7]"

definition bullet :: string where
  \<comment> \<open>U+2022\<close>
  "bullet = [CHR 0xE2, CHR 0x80, CHR 0xA2]"

definition digit_char :: "nat \<Rightarrow> char" where
  "digit_char d = char_of (48 + d)"

fun str_nat :: "nat \<Rightarrow> string" where
  "str_nat n = (if n < 10 then [digit_char n]
                else str_nat (n div 10) @ [digit_char (n mod 10)])"

declare str_nat.simps [simp del]

definition str_int :: "int \<Rightarrow> string" where
  \<comment> \<open>\<^verbatim>\<open>str(n)\<close>\<close>
  "str_int i = (if i < 0 then CHR ''-'' # str_nat (nat (- i)) else str_nat (nat i))"

definition zfill :: "nat \<Rightarrow> string \<Rightarrow> string" where
  "zfill w s = replicate (w - length s) CHR ''0'' @ s"

definition format_f :: "nat \<Rightarrow> real \<Rightarrow> string" where
  \<comment> \<open>\<^verbatim>\<open>f"{x:.kf}"\<close> for \<open>k \<ge> 1\<close>: the exact value of the float, rounded to \<open>k\<close>
      decimals, ties to even\<close>
  "format_f k x =
     (let r = nat (rne (\<bar>x\<bar> * 10 ^ k))
      in (if x < 0 then ''-'' else '''')
         @ str_nat (r div 10 ^ k) @ ''.'' @ zfill k (str_nat (r mod 10 ^ k)))"

fun group3 :: "nat \<Rightarrow> string" where
  "group3 n = (if n < 1000 then str_nat n
               else group3 (n div 1000) @ '','' @ zfill 3 (str_nat (n mod 1000)))"

declare group3.simps [simp del]

definition format_commas :: "int \<Rightarrow> string" where
  \<comment> \<open>\<^verbatim>\<open>f"{n:,}"\<close>\<close>
  "format_commas i = (if i < 0 then CHR ''-'' # group3 (nat (- i)) else group3 (nat i))"

definition format_npfloat :: "nat \<Rightarrow> npfloat \<Rightarrow> string" where
  "format_npfloat k x =
     (case x of Finite v \<Rightarrow> format_f k v | PosInf \<Rightarrow> ''inf'' | NegInf \<Rightarrow> ''-inf''
      | NaN \<Rightarrow> ''nan'')"

fun contains :: "string \<Rightarrow> string \<Rightarrow> bool" where
  \<comment> \<open>\<^verbatim>\<open>sub in s\<close>\<close>
  "contains sub [] = (sub = [])"
| "contains sub (c # cs) = (take (length sub) (c # cs) = sub \<or> contains sub cs)"

function split_from :: "string \<Rightarrow> string \<Rightarrow> string \<Rightarrow> string list" where
  \<comment> \<open>the scan of \<^verbatim>\<open>s.split(sep)\<close>: \<open>acc\<close> is the part read so far, reversed\<close>
  "split_from sep acc [] = [rev acc]"
| "split_from sep acc (c # cs) =
     (if sep \<noteq> [] \<and> take (length sep) (c # cs) = sep
      then rev acc # split_from sep [] (drop (length sep) (c # cs))
      else split_from sep (c # acc) cs)"
  by pat_completeness auto
termination
  by (relation "measure (\<lambda>(sep, acc, s). length s)") auto

definition split :: "string \<Rightarrow> string \<Rightarrow> py_error + string list" where
  \<comment> \<open>\<^verbatim>\<open>s.split(sep)\<close>; an empty separator raises\<close>
  "split s sep = (if sep = [] then Inl ValueError else Inr (split_from sep [] s))"

definition item :: "'a list \<Rightarrow> nat \<Rightarrow> py_error + 'a" where
  \<comment> \<open>\<^verbatim>\<open>xs[i]\<close> at an index that is not negative\<close>
  "item xs i = (if i < length xs then Inr (xs ! i) else Inl IndexError)"

section \<open>Theme and constants\<close>

definition STAGES :: "string list" where
  "STAGES = [''Impression'', ''Click'', ''Lead'', ''MQL'', ''SQL'', ''Won'']"

definition Sofia :: string where
  "Sofia = ''Sof'' @ [CHR 0xC3, CHR 0xAD] @ ''a''"

definition EMPLOYEES :: "string list" where
  "EMPLOYEES = [''All'', Sofia, ''Mateo'', ''Valentina'', ''Juan'']"

section \<open>Dummy data\<close>

text \<open>
  \<^verbatim>\<open>np.random.default_rng(seed)\<close> makes a generator of its own from the seed; a draw
  returns a value and moves the generator on. The seed is a natural number: numpy
  refuses a negative one.
\<close>

record 'g numpy_generator =
  gen_default_rng :: "nat \<Rightarrow> 'g"
  gen_integers :: "'g \<Rightarrow> int \<Rightarrow> int \<Rightarrow> int \<times> 'g"
  gen_normal :: "'g \<Rightarrow> real \<Rightarrow> real \<Rightarrow> real \<times> 'g"

definition rng :: "'g numpy_generator \<Rightarrow> nat \<Rightarrow> 'g" where
  "rng G seed = gen_default_rng G seed"

definition make_dummy_funnel :: "'g numpy_generator \<Rightarrow> nat \<Rightarrow> int list" where
  "make_dummy_funnel G seed =
     (let r0 = rng G seed;
          (base, r1) = gen_integers G r0 1800000 2500000;
          (z1, r2) = gen_normal G r1 (fl (18/1000)) (fl (6/1000));
          ctr = clip z1 (fl (6/1000)) (fl (6/100));
          click = py_int (fmul (float_of_int base) ctr);
          (z2, r3) = gen_normal G r2 (fl (7/100)) (fl (2/100));
          click_to_lead = clip z2 (fl (2/100)) (fl (22/100));
          lead = py_int (fmul (float_of_int click) click_to_lead);
          (z3, r4) = gen_normal G r3 (fl (45/100)) (fl (12/100));
          lead_to_mql = clip z3 (fl (10/100)) (fl (85/100));
          mql = py_int (fmul (float_of_int lead) lead_to_mql);
          (z4, r5) = gen_normal G r4 (fl (35/100)) (fl (10/100));
          mql_to_sql = clip z4 (fl (8/100)) (fl (80/100));
          sql = py_int (fmul (float_of_int mql) mql_to_sql);
          (z5, r6) = gen_normal G r5 (fl (18/100)) (fl (7/100));
          sql_to_won = clip z5 (fl (2/100)) (fl (55/100));
          won = py_int (fmul (float_of_int sql) sql_to_won);
          click = min click base;
          lead = min lead click;
          mql = min mql lead;
          sql = min sql mql;
          won = min won sql
      in [base, click, lead, mql, sql, won])"

fun clamp_from :: "int \<Rightarrow> int list \<Rightarrow> int list" where
  "clamp_from p [] = []"
| "clamp_from p (c # cs) = min c p # clamp_from (min c p) cs"

definition clamp_monotone :: "int list \<Rightarrow> int list" where
  \<comment> \<open>\<^verbatim>\<open>for k in range(1, len(counts)): counts[k] = min(counts[k], counts[k-1])\<close>\<close>
  "clamp_monotone counts = (case counts of [] \<Rightarrow> [] | c # cs \<Rightarrow> c # clamp_from c cs)"

definition weights :: "real list" where
  \<comment> \<open>\<^verbatim>\<open>weights / weights.sum()\<close>; numpy adds four numbers from left to right\<close>
  "weights =
     (let w = [fl (28/100), fl (25/100), fl (25/100), fl (22/100)];
          s = foldl fadd 0 w
      in map (\<lambda>x. fdiv x s) w)"

definition emps :: "string list" where
  "emps = [Sofia, ''Mateo'', ''Valentina'', ''Juan'']"

fun per_emp_loop ::
  "'g numpy_generator \<Rightarrow> int list \<Rightarrow> 'g \<Rightarrow> (real \<times> string) list \<Rightarrow>
   (string \<rightharpoonup> int list) \<Rightarrow> (string \<rightharpoonup> int list)" where
  \<comment> \<open>the first loop of \<^verbatim>\<open>split_by_employees\<close>, over the weights and the names\<close>
  "per_emp_loop G all_counts r [] per_emp = per_emp"
| "per_emp_loop G all_counts r ((w, e) # rest) per_emp =
     (let (z, r') = gen_normal G r (fl 1) (fl (8/100));
          factor = fmul w (clip z (fl (85/100)) (fl (115/100)));
          counts = map (\<lambda>c. py_int (fmul (float_of_int c) factor)) all_counts;
          counts = clamp_monotone counts
      in per_emp_loop G all_counts r' rest (per_emp(e \<mapsto> counts)))"

fun add_counts :: "int list \<Rightarrow> int list \<Rightarrow> py_error + int list" where
  \<comment> \<open>\<^verbatim>\<open>for i in range(len(summed)): summed[i] += counts[i]\<close>\<close>
  "add_counts [] counts = Inr []"
| "add_counts (s # summed) [] = Inl IndexError"
| "add_counts (s # summed) (c # counts) =
     (case add_counts summed counts of Inl err \<Rightarrow> Inl err | Inr t \<Rightarrow> Inr ((s + c) # t))"

fun sum_loop ::
  "(string \<rightharpoonup> int list) \<Rightarrow> string list \<Rightarrow> int list \<Rightarrow> py_error + int list" where
  \<comment> \<open>the second loop of \<^verbatim>\<open>split_by_employees\<close>, over the names\<close>
  "sum_loop per_emp [] summed = Inr summed"
| "sum_loop per_emp (e # es) summed =
     (case per_emp e of
        None \<Rightarrow> Inl KeyError
      | Some counts \<Rightarrow>
          (case add_counts summed counts of
             Inl err \<Rightarrow> Inl err
           | Inr summed' \<Rightarrow> sum_loop per_emp es summed'))"

definition split_by_employees ::
  "'g numpy_generator \<Rightarrow> int list \<Rightarrow> nat \<Rightarrow> py_error + (string \<rightharpoonup> int list)" where
  "split_by_employees G all_counts seed =
     (let r = rng G seed;
          per_emp = per_emp_loop G all_counts r (zip weights emps) Map.empty
      in case sum_loop per_emp emps (replicate (length all_counts) 0) of
           Inl err \<Rightarrow> Inl err
         | Inr summed \<Rightarrow> Inr (per_emp(''All'' \<mapsto> summed)))"

text \<open>
  \<^verbatim>\<open>datetime.now()\<close> is an argument. \<^verbatim>\<open>strftime("%Y-%m")\<close> prints the year as it is
  and the month on two digits.
\<close>

record datetime =
  dt_year :: int
  dt_month :: nat
  dt_day :: nat
  dt_hour :: nat
  dt_minute :: nat
  dt_second :: nat
  dt_microsecond :: nat

definition replace_day :: "datetime \<Rightarrow> nat \<Rightarrow> datetime" where
  "replace_day d n = d\<lparr>dt_day := n\<rparr>"

definition month_index :: "datetime \<Rightarrow> int" where
  \<comment> \<open>the months counted from year 0\<close>
  "month_index d = dt_year d * 12 + int (dt_month d) - 1"

definition sub_months :: "datetime \<Rightarrow> nat \<Rightarrow> datetime" where
  \<comment> \<open>\<^verbatim>\<open>d - pd.DateOffset(months=k)\<close> on the first day of a month\<close>
  "sub_months d k =
     (let total = month_index d - int k
      in d\<lparr>dt_year := total div 12, dt_month := nat (total mod 12) + 1\<rparr>)"

definition strftime_Ym :: "datetime \<Rightarrow> string" where
  "strftime_Ym d = str_int (dt_year d) @ ''-'' @ zfill 2 (str_nat (dt_month d))"

record kpi_row =
  row_month :: string
  row_impressions :: int
  row_clicks :: int
  row_leads :: int
  row_mql :: int
  row_sql :: int
  row_won :: int
  row_ctr :: npfloat
  row_click_to_lead :: npfloat
  row_lead_to_mql :: npfloat
  row_mql_to_sql :: npfloat
  row_sql_to_won :: npfloat

definition safe_pct :: "int \<Rightarrow> int \<Rightarrow> npfloat" where
  \<comment> \<open>the inner function of \<^verbatim>\<open>make_3_months_kpis\<close>, on numpy integers\<close>
  "safe_pct num den =
     (if den \<noteq> 0 then np_multiply (np_true_divide num den) (fl 100) else Finite 0)"

definition drift_base :: "nat \<Rightarrow> real" where
  \<comment> \<open>\<^verbatim>\<open>0.90 + 0.06 * idx\<close>\<close>
  "drift_base idx = fadd (fl (90/100)) (fmul (fl (6/100)) (float_of_int (int idx)))"

definition drift_of :: "nat \<Rightarrow> real \<Rightarrow> real" where
  \<comment> \<open>\<^verbatim>\<open>0.90 + 0.06 * idx + float(np.clip(z, -0.05, 0.05))\<close>, \<open>z\<close> the normal draw\<close>
  "drift_of idx z = fadd (drift_base idx) (clip z (- fl (5/100)) (fl (5/100)))"

definition month_row :: "string \<Rightarrow> real list \<Rightarrow> real \<Rightarrow> py_error + kpi_row" where
  \<comment> \<open>the body of the loop of \<^verbatim>\<open>make_3_months_kpis\<close> after the drift\<close>
  "month_row m base drift =
     (let vals = map (\<lambda>b. astype_int (fmul b drift)) base;
          vals = clamp_monotone vals
      in case vals of
           [imp, clk, lead, mql, sql, won] \<Rightarrow>
             Inr \<lparr>row_month = m,
                  row_impressions = imp,
                  row_clicks = clk,
                  row_leads = lead,
                  row_mql = mql,
                  row_sql = sql,
                  row_won = won,
                  row_ctr = safe_pct clk imp,
                  row_click_to_lead = safe_pct lead clk,
                  row_lead_to_mql = safe_pct mql lead,
                  row_mql_to_sql = safe_pct sql mql,
                  row_sql_to_won = safe_pct won sql\<rparr>
         | _ \<Rightarrow> Inl ValueError)"

fun months_loop ::
  "'g numpy_generator \<Rightarrow> real list \<Rightarrow> 'g \<Rightarrow> nat \<Rightarrow> string list \<Rightarrow>
   py_error + kpi_row list" where
  "months_loop G base r idx [] = Inr []"
| "months_loop G base r idx (m # ms) =
     (let (z, r') = gen_normal G r (fl 0) (fl (3/100));
          drift = drift_of idx z
      in case month_row m base drift of
           Inl err \<Rightarrow> Inl err
         | Inr row \<Rightarrow>
             (case months_loop G base r' (Suc idx) ms of
                Inl err \<Rightarrow> Inl err
              | Inr rows \<Rightarrow> Inr (row # rows)))"

definition make_3_months_kpis ::
  "'g numpy_generator \<Rightarrow> datetime \<Rightarrow> int list \<Rightarrow> nat \<Rightarrow> py_error + kpi_row list" where
  "make_3_months_kpis G now counts_now seed =
     (let r = rng G seed;
          end = replace_day now 1;
          months = [strftime_Ym (sub_months end 2),
                    strftime_Ym (sub_months end 1),
                    strftime_Ym (sub_months end 0)];
          base = map float_of_int counts_now
      in months_loop G base r 0 months)"

definition BASE_COUNTS :: "'g numpy_generator \<Rightarrow> int list" where
  "BASE_COUNTS G = make_dummy_funnel G 11"

definition DATA_BY_EMP ::
  "'g numpy_generator \<Rightarrow> py_error + (string \<rightharpoonup> int list)" where
  "DATA_BY_EMP G = split_by_employees G (BASE_COUNTS G) 11"

section \<open>Formatters\<close>

definition fmt_int :: "int \<Rightarrow> string" where
  \<comment> \<open>for \<open>n\<close> within the range of binary64 (beyond it \<^verbatim>\<open>n / 1_000_000\<close> raises
      \<^verbatim>\<open>OverflowError\<close>)\<close>
  "fmt_int n =
     (if n \<ge> 1000000 then format_f 2 (fl (of_int n / 1000000)) @ ''M''
      else if n \<ge> 1000 then format_f 1 (fl (of_int n / 1000)) @ ''K''
      else str_int n)"

definition pct_prev :: "int \<Rightarrow> int \<Rightarrow> py_error + real" where
  "pct_prev cur prev =
     (if prev \<noteq> 0
      then (case int_truediv cur prev of
              Inl err \<Rightarrow> Inl err
            | Inr q \<Rightarrow> Inr (fmul q (fl 100)))
      else Inr 0)"

definition pct_prev_str :: "int \<Rightarrow> int \<Rightarrow> py_error + string" where
  "pct_prev_str cur prev =
     (case pct_prev cur prev of
        Inl err \<Rightarrow> Inl err
      | Inr p \<Rightarrow> Inr (format_f 2 p @ ''%''))"

section \<open>Figures and components\<close>

text \<open>
  A figure or a component is the record of the data it shows; colours, fonts and layout
  are left out.
\<close>

record funnel_fig =
  fig_x :: "int list"
  fig_y :: "string list"
  fig_text :: "string list"

fun labels_from :: "int \<Rightarrow> int list \<Rightarrow> py_error + string list" where
  \<comment> \<open>the labels of the stages after the first; \<open>prev\<close> is \<^verbatim>\<open>counts[i-1]\<close>\<close>
  "labels_from prev [] = Inr []"
| "labels_from prev (c # cs) =
     (case pct_prev_str c prev of
        Inl err \<Rightarrow> Inl err
      | Inr s \<Rightarrow>
          (case labels_from c cs of
             Inl err \<Rightarrow> Inl err
           | Inr ls \<Rightarrow> Inr ((fmt_int c @ '' '' @ middot @ '' '' @ s) # ls)))"

definition build_funnel_bar :: "int list \<Rightarrow> py_error + funnel_fig" where
  "build_funnel_bar counts =
     (case (case counts of
              [] \<Rightarrow> Inr []
            | c # cs \<Rightarrow>
                (case labels_from c cs of
                   Inl err \<Rightarrow> Inl err
                 | Inr ls \<Rightarrow> Inr ((fmt_int c @ '' '' @ middot @ '' Base'') # ls)))
      of Inl err \<Rightarrow> Inl err
       | Inr labels \<Rightarrow> Inr \<lparr>fig_x = counts, fig_y = STAGES, fig_text = labels\<rparr>)"

datatype cell = IntCell int | FloatCell npfloat

record trend_fig =
  trend_title :: string
  trend_x :: "string list"
  trend_y :: "cell list"

definition column :: "string \<Rightarrow> kpi_row \<Rightarrow> py_error + cell" where
  \<comment> \<open>\<^verbatim>\<open>df[col]\<close> at one row, for the numeric columns\<close>
  "column col r =
     (if col = ''impressions'' then Inr (IntCell (row_impressions r))
      else if col = ''clicks'' then Inr (IntCell (row_clicks r))
      else if col = ''leads'' then Inr (IntCell (row_leads r))
      else if col = ''mql'' then Inr (IntCell (row_mql r))
      else if col = ''sql'' then Inr (IntCell (row_sql r))
      else if col = ''won'' then Inr (IntCell (row_won r))
      else if col = ''ctr'' then Inr (FloatCell (row_ctr r))
      else if col = ''click_to_lead'' then Inr (FloatCell (row_click_to_lead r))
      else if col = ''lead_to_mql'' then Inr (FloatCell (row_lead_to_mql r))
      else if col = ''mql_to_sql'' then Inr (FloatCell (row_mql_to_sql r))
      else if col = ''sql_to_won'' then Inr (FloatCell (row_sql_to_won r))
      else Inl KeyError)"

fun collect :: "('a \<Rightarrow> py_error + 'b) \<Rightarrow> 'a list \<Rightarrow> py_error + 'b list" where
  \<comment> \<open>a function applied to each element in turn, up to the first exception\<close>
  "collect f [] = Inr []"
| "collect f (x # xs) =
     (case f x of
        Inl err \<Rightarrow> Inl err
      | Inr y \<Rightarrow> (case collect f xs of Inl err \<Rightarrow> Inl err | Inr ys \<Rightarrow> Inr (y # ys)))"

definition build_kpi_trend :: "kpi_row list \<Rightarrow> string \<Rightarrow> string \<Rightarrow> py_error + trend_fig" where
  "build_kpi_trend df col title =
     (case collect (column col) df of
        Inl err \<Rightarrow> Inl err
      | Inr ys \<Rightarrow> Inr \<lparr>trend_title = title, trend_x = map row_month df, trend_y = ys\<rparr>)"

record kpi_button =
  card_id :: string
  card_title :: string
  card_value :: string
  card_subtitle :: string

definition kpi_card :: "string \<Rightarrow> string \<Rightarrow> string \<Rightarrow> string \<Rightarrow> kpi_button" where
  "kpi_card kpi_id title val subtitle =
     \<lparr>card_id = kpi_id, card_title = title, card_value = val, card_subtitle = subtitle\<rparr>"

section \<open>Callbacks\<close>

definition toggle_views :: "string \<Rightarrow> bool \<times> bool" where
  \<comment> \<open>whether the overview and the details are displayed\<close>
  "toggle_views tab = (if tab = ''tab-details'' then (False, True) else (True, False))"

definition get_counts :: "(string \<rightharpoonup> int list) \<Rightarrow> string \<Rightarrow> py_error + int list" where
  \<comment> \<open>\<^verbatim>\<open>DATA_BY_EMP.get(employee, DATA_BY_EMP["All"])\<close>\<close>
  "get_counts D employee =
     (case D ''All'' of
        None \<Rightarrow> Inl KeyError
      | Some dflt \<Rightarrow> (case D employee of None \<Rightarrow> Inr dflt | Some counts \<Rightarrow> Inr counts))"

fun min_item :: "string \<times> real \<Rightarrow> (string \<times> real) list \<Rightarrow> string \<times> real" where
  \<comment> \<open>\<^verbatim>\<open>min(..., key=...)\<close> keeps the first of the least items\<close>
  "min_item b [] = b"
| "min_item b (x # xs) = min_item (if snd x < snd b then x else b) xs"

fun max_item :: "string \<times> real \<Rightarrow> (string \<times> real) list \<Rightarrow> string \<times> real" where
  \<comment> \<open>\<^verbatim>\<open>max(..., key=...)\<close> keeps the first of the greatest items\<close>
  "max_item b [] = b"
| "max_item b (x # xs) = max_item (if snd b < snd x then x else b) xs"

definition rank_kpis ::
  "(string \<times> real) list \<Rightarrow> py_error + (string \<times> real) \<times> (string \<times> real)" where
  \<comment> \<open>\<^verbatim>\<open>worst\<close> and \<open>best\<close> of \<^verbatim>\<open>update_overview\<close>, each with its rate; the dictionary
      \<^verbatim>\<open>rates\<close> is the list of its items in the order of insertion\<close>
  "rank_kpis rates =
     (case rates of
        [] \<Rightarrow> Inl ValueError
      | r # rs \<Rightarrow> Inr (min_item r rs, max_item r rs))"

record overview =
  ov_fig :: funnel_fig
  ov_cards :: "kpi_button list"
  ov_insights :: "string list"

definition pct2 :: "real \<Rightarrow> string" where
  \<comment> \<open>\<^verbatim>\<open>f"{x:.2f}%"\<close>\<close>
  "pct2 x = format_f 2 x @ ''%''"

definition overview_of :: "int list \<Rightarrow> py_error + overview" where
  \<comment> \<open>\<^verbatim>\<open>update_overview\<close> after the lookup of the counts\<close>
  "overview_of counts =
     (case build_funnel_bar counts of
        Inl err \<Rightarrow> Inl err
      | Inr fig \<Rightarrow>
     (case counts of
        [imp, clk, lead, mql, sql, won] \<Rightarrow>
          (case pct_prev clk imp of Inl err \<Rightarrow> Inl err | Inr p1 \<Rightarrow>
          (case pct_prev lead clk of Inl err \<Rightarrow> Inl err | Inr p2 \<Rightarrow>
          (case pct_prev mql lead of Inl err \<Rightarrow> Inl err | Inr p3 \<Rightarrow>
          (case pct_prev sql mql of Inl err \<Rightarrow> Inl err | Inr p4 \<Rightarrow>
          (case pct_prev won sql of Inl err \<Rightarrow> Inl err | Inr p5 \<Rightarrow>
            (let cards =
                   [kpi_card ''impressions'' ''Impressions'' (format_commas imp)
                      ''Base del funnel'',
                    kpi_card ''ctr'' ''CTR'' (pct2 p1) ''Click / Impression'',
                    kpi_card ''click_to_lead'' (''Click '' @ arrow @ '' Lead'') (pct2 p2)
                      ''Lead / Click'',
                    kpi_card ''lead_to_mql'' (''Lead '' @ arrow @ '' MQL'') (pct2 p3)
                      ''MQL / Lead'',
                    kpi_card ''mql_to_sql'' (''MQL '' @ arrow @ '' SQL'') (pct2 p4)
                      ''SQL / MQL'',
                    kpi_card ''sql_to_won'' (''SQL '' @ arrow @ '' Won'') (pct2 p5)
                      ''Won / SQL''];
                 rates =
                   [(''CTR'', p1),
                    (''Click '' @ arrow @ '' Lead'', p2),
                    (''Lead '' @ arrow @ '' MQL'', p3),
                    (''MQL '' @ arrow @ '' SQL'', p4),
                    (''SQL '' @ arrow @ '' Won'', p5)]
             in case rank_kpis rates of
                  Inl err \<Rightarrow> Inl err
                | Inr (worst, best) \<Rightarrow>
                    Inr \<lparr>ov_fig = fig,
                         ov_cards = cards,
                         ov_insights =
                           [''Insights del rango (dummy)'',
                            bullet @ '' Mayor ca'' @ [CHR 0xC3, CHR 0xAD] @ ''da: ''
                              @ fst worst @ '' '' @ middot @ '' '' @ pct2 (snd worst),
                            bullet @ '' Mejor etapa: ''
                              @ fst best @ '' '' @ middot @ '' '' @ pct2 (snd best),
                            bullet @ '' Won total: '' @ format_commas won,
                            ''Tip: dale click a un KPI para ver su evoluci''
                              @ [CHR 0xC3, CHR 0xB3] @ ''n 3 meses.'']\<rparr>))))))
      | _ \<Rightarrow> Inl ValueError))"

definition update_overview :: "'g numpy_generator \<Rightarrow> string \<Rightarrow> py_error + overview" where
  "update_overview G employee =
     (case DATA_BY_EMP G of
        Inl err \<Rightarrow> Inl err
      | Inr D \<Rightarrow>
          (case get_counts D employee of
             Inl err \<Rightarrow> Inl err
           | Inr counts \<Rightarrow> overview_of counts))"

definition dquote :: string where
  "dquote = [CHR 0x22]"

definition kpi_marker :: string where
  \<comment> \<open>the text \<^verbatim>\<open>"kpi":"\<close> that \<^verbatim>\<open>kpi_click\<close> looks for\<close>
  "kpi_marker = dquote @ ''kpi'' @ dquote @ '':'' @ dquote"

definition kpi_click :: "string list \<Rightarrow> py_error + string \<times> string" where
  \<comment> \<open>the argument is \<^verbatim>\<open>callback_context.triggered\<close>, each entry by its \<^verbatim>\<open>prop_id\<close>\<close>
  "kpi_click trig =
     (case trig of
        [] \<Rightarrow> Inr (''impressions'', ''tab-overview'')
      | prop_id # _ \<Rightarrow>
          (if contains kpi_marker prop_id
           then (case split prop_id kpi_marker of Inl err \<Rightarrow> Inl err | Inr parts \<Rightarrow>
                (case item parts 1 of Inl err \<Rightarrow> Inl err | Inr part \<Rightarrow>
                (case split part dquote of Inl err \<Rightarrow> Inl err | Inr parts' \<Rightarrow>
                (case item parts' 0 of Inl err \<Rightarrow> Inl err | Inr kpi \<Rightarrow>
                   Inr (kpi, ''tab-details'')))))
           else Inr (''impressions'', ''tab-details'')))"

definition meta :: "(string \<times> string \<times> string \<times> string) list" where
  "meta =
     [(''impressions'', ''Impressions'', ''impressions'', ''Total de impresiones por mes.''),
      (''ctr'', ''CTR'', ''ctr'', ''Clicks / Impressions (%).''),
      (''click_to_lead'', ''Click '' @ arrow @ '' Lead'', ''click_to_lead'',
         ''Leads / Clicks (%).''),
      (''lead_to_mql'', ''Lead '' @ arrow @ '' MQL'', ''lead_to_mql'', ''MQL / Leads (%).''),
      (''mql_to_sql'', ''MQL '' @ arrow @ '' SQL'', ''mql_to_sql'', ''SQL / MQL (%).''),
      (''sql_to_won'', ''SQL '' @ arrow @ '' Won'', ''sql_to_won'', ''Won / SQL (%).'')]"

definition get_meta :: "string \<Rightarrow> py_error + string \<times> string \<times> string" where
  \<comment> \<open>\<^verbatim>\<open>meta.get(selected_kpi, meta["ctr"])\<close>\<close>
  "get_meta selected_kpi =
     (case map_of meta ''ctr'' of
        None \<Rightarrow> Inl KeyError
      | Some dflt \<Rightarrow> (case map_of meta selected_kpi of None \<Rightarrow> Inr dflt | Some v \<Rightarrow> Inr v))"

definition cell_int :: "cell \<Rightarrow> py_error + int" where
  \<comment> \<open>\<^verbatim>\<open>int(v)\<close>\<close>
  "cell_int v =
     (case v of
        IntCell i \<Rightarrow> Inr i
      | FloatCell (Finite x) \<Rightarrow> Inr (py_int x)
      | FloatCell NaN \<Rightarrow> Inl ValueError
      | FloatCell _ \<Rightarrow> Inl OverflowError)"

definition cell_float :: "cell \<Rightarrow> npfloat" where
  \<comment> \<open>\<^verbatim>\<open>float(v)\<close>\<close>
  "cell_float v = (case v of IntCell i \<Rightarrow> Finite (float_of_int i) | FloatCell x \<Rightarrow> x)"

definition format_cell :: "string \<Rightarrow> cell \<Rightarrow> py_error + string" where
  \<comment> \<open>the two \<^verbatim>\<open>view[col].map(...)\<close> of \<^verbatim>\<open>render_details\<close>\<close>
  "format_cell col v =
     (if col \<in> set [''impressions'', ''clicks'', ''leads'', ''mql'', ''sql'', ''won'']
      then (case cell_int v of Inl err \<Rightarrow> Inl err | Inr i \<Rightarrow> Inr (format_commas i))
      else Inr (format_npfloat 2 (cell_float v) @ ''%''))"

record details =
  det_fig :: trend_fig
  det_txt :: string
  det_head :: "string \<times> string"
  det_body :: "(string \<times> string) list"

definition details_of ::
  "kpi_row list \<Rightarrow> string \<Rightarrow> string \<Rightarrow> py_error + details" where
  \<comment> \<open>\<^verbatim>\<open>render_details\<close> after the history has been made\<close>
  "details_of df selected_kpi employee =
     (case get_meta selected_kpi of
        Inl err \<Rightarrow> Inl err
      | Inr (title, col, expl) \<Rightarrow>
     (case build_kpi_trend df col
             (title @ '' '' @ middot @ '' '' @ [CHR 0xC3, CHR 0x9A] @ ''ltimos 3 meses'') of
        Inl err \<Rightarrow> Inl err
      | Inr fig \<Rightarrow>
     (case collect (\<lambda>r. case column col r of
                           Inl err \<Rightarrow> Inl err
                         | Inr v \<Rightarrow>
                             (case format_cell col v of
                                Inl err \<Rightarrow> Inl err
                              | Inr s \<Rightarrow> Inr (row_month r, s))) df of
        Inl err \<Rightarrow> Inl err
      | Inr body \<Rightarrow>
          Inr \<lparr>det_fig = fig,
               det_txt = ''Empleado: '' @ employee @ '' '' @ middot @ '' '' @ expl,
               det_head = (''Mes'', title),
               det_body = body\<rparr>)))"

definition history_seed :: "(string \<Rightarrow> int) \<Rightarrow> string \<Rightarrow> nat" where
  \<comment> \<open>\<^verbatim>\<open>77 if employee == "All" else (abs(hash(employee)) % 10_000)\<close>\<close>
  "history_seed py_hash employee =
     (if employee = ''All'' then 77 else nat (\<bar>py_hash employee\<bar> mod 10000))"

definition render_details ::
  "'g numpy_generator \<Rightarrow> datetime \<Rightarrow> (string \<Rightarrow> int) \<Rightarrow> string \<Rightarrow> string \<Rightarrow>
   py_error + details" where
  "render_details G now py_hash selected_kpi employee =
     (case DATA_BY_EMP G of
        Inl err \<Rightarrow> Inl err
      | Inr D \<Rightarrow>
     (case get_counts D employee of
        Inl err \<Rightarrow> Inl err
      | Inr counts \<Rightarrow>
     (case make_3_months_kpis G now counts (history_seed py_hash employee) of
        Inl err \<Rightarrow> Inl err
      | Inr df \<Rightarrow> details_of df selected_kpi employee)))"

section \<open>The state of the view\<close>

text \<open>
  Dash keeps the value of the employee dropdown, the \<^verbatim>\<open>selected-kpi\<close> store and the
  value of the tabs, and calls a callback when one of its inputs changes. A click on
  the card of a KPI calls \<^verbatim>\<open>kpi_click\<close> with the identifier of the card, which Dash
  writes as the JSON text of \<^verbatim>\<open>{"type": "kpi", "kpi": k}\<close> with sorted keys and no
  spaces, followed by \<^verbatim>\<open>.n_clicks\<close>; the two values the callback returns are written to
  the store and to the tabs together.
\<close>

record view_state =
  st_employee :: string
  st_selected_kpi :: string
  st_tabs :: string

definition initial_state :: view_state where
  "initial_state =
     \<lparr>st_employee = ''All'', st_selected_kpi = ''impressions'', st_tabs = ''tab-overview''\<rparr>"

definition KPI_IDS :: "string list" where
  "KPI_IDS = [''impressions'', ''ctr'', ''click_to_lead'', ''lead_to_mql'', ''mql_to_sql'',
              ''sql_to_won'']"

definition prop_id_of :: "string \<Rightarrow> string" where
  "prop_id_of k =
     ''{'' @ kpi_marker @ k @ dquote @ '','' @ dquote @ ''type'' @ dquote @ '':''
       @ dquote @ ''kpi'' @ dquote @ ''}.n_clicks''"

datatype event = SelectEmployee string | SelectTab string | ClickKpi string

definition dispatch :: "view_state \<Rightarrow> event \<Rightarrow> py_error + view_state" where
  "dispatch st ev =
     (case ev of
        SelectEmployee e \<Rightarrow> Inr (st\<lparr>st_employee := e\<rparr>)
      | SelectTab t \<Rightarrow> Inr (st\<lparr>st_tabs := t\<rparr>)
      | ClickKpi k \<Rightarrow>
          (case kpi_click [prop_id_of k] of
             Inl err \<Rightarrow> Inl err
           | Inr (kpi, tab) \<Rightarrow> Inr (st\<lparr>st_selected_kpi := kpi, st_tabs := tab\<rparr>)))"

section \<open>A generator, a clock and a hash to run the functions on\<close>

definition toy_generator :: "nat numpy_generator" where
  "toy_generator =
     \<lparr>gen_default_rng = (\<lambda>seed. seed),
      gen_integers = (\<lambda>g lo hi. (lo + (int g * 7919) mod (hi - lo), Suc g)),
      gen_normal = (\<lambda>g mu sigma. (fadd mu (fmul sigma (real (g mod 5) - 2)), Suc g))\<rparr>"

definition toy_now :: datetime where
  "toy_now = \<lparr>dt_year = 2026, dt_month = 1, dt_day = 17, dt_hour = 9, dt_minute = 30,
              dt_second = 0, dt_microsecond = 0\<rparr>"

definition toy_hash :: "string \<Rightarrow> int" where
  "toy_hash s = 1000003 * int (length s) - 5000000"

section \<open>Notions used in the statements\<close>

text \<open>
  The definitions of this section are not functions of the module: they name the
  properties the theorems state and the intermediate values of the loops.
\<close>

definition non_increasing :: "int list \<Rightarrow> bool" where
  \<comment> \<open>each count is at most the count before it\<close>
  "non_increasing xs = (\<forall>i. i + 1 < length xs \<longrightarrow> xs ! (i + 1) \<le> xs ! i)"

definition good_entries :: "nat \<Rightarrow> (string \<rightharpoonup> int list) \<Rightarrow> bool" where
  "good_entries n m = (\<forall>e cs. m e = Some cs \<longrightarrow> length cs = n \<and> non_increasing cs)"

definition stage_counts :: "kpi_row \<Rightarrow> int list" where
  "stage_counts r = [row_impressions r, row_clicks r, row_leads r, row_mql r, row_sql r, row_won r]"

fun drifts_from :: "'g numpy_generator \<Rightarrow> 'g \<Rightarrow> nat \<Rightarrow> nat \<Rightarrow> real list" where
  "drifts_from G r idx 0 = []"
| "drifts_from G r idx (Suc n) =
     (let (z, r') = gen_normal G r (fl 0) (fl (3/100))
      in drift_of idx z # drifts_from G r' (Suc idx) n)"

definition months_of :: "datetime \<Rightarrow> string list" where
  "months_of now =
     [strftime_Ym (sub_months (replace_day now 1) 2),
      strftime_Ym (sub_months (replace_day now 1) 1),
      strftime_Ym (sub_months (replace_day now 1) 0)]"

definition month_drifts :: "'g numpy_generator \<Rightarrow> nat \<Rightarrow> real list" where
  "month_drifts G seed = drifts_from G (rng G seed) 0 3"

definition month_vals :: "int list \<Rightarrow> real \<Rightarrow> int list" where
  "month_vals counts d =
     clamp_monotone (map (\<lambda>b. astype_int (fmul b d)) (map float_of_int counts))"

definition row_of :: "string \<Rightarrow> int list \<Rightarrow> kpi_row" where
  "row_of m vals =
     \<lparr>row_month = m,
      row_impressions = vals ! 0,
      row_clicks = vals ! 1,
      row_leads = vals ! 2,
      row_mql = vals ! 3,
      row_sql = vals ! 4,
      row_won = vals ! 5,
      row_ctr = safe_pct (vals ! 1) (vals ! 0),
      row_click_to_lead = safe_pct (vals ! 2) (vals ! 1),
      row_lead_to_mql = safe_pct (vals ! 3) (vals ! 2),
      row_mql_to_sql = safe_pct (vals ! 4) (vals ! 3),
      row_sql_to_won = safe_pct (vals ! 5) (vals ! 4)\<rparr>"

definition is_digit :: "char \<Rightarrow> bool" where
  "is_digit c = (c \<in> set ''0123456789'')"

definition hundredths :: "int \<Rightarrow> nat" where
  \<comment> \<open>\<^verbatim>\<open>n / 1_000_000\<close> as a float, in hundredths, rounded to an integer\<close>
  "hundredths n = nat (rne (\<bar>fl (of_int n / 1000000)\<bar> * 10 ^ 2))"

definition tenths :: "int \<Rightarrow> nat" where
  \<comment> \<open>\<^verbatim>\<open>n / 1_000\<close> as a float, in tenths, rounded to an integer\<close>
  "tenths n = nat (rne (\<bar>fl (of_int n / 1000)\<bar> * 10 ^ 1))"

definition spec_rates :: "(string \<times> real) list" where
  \<comment> \<open>the rates of the example of the specification\<close>
  "spec_rates =
     [(''CTR'', 50), (''Click '' @ arrow @ '' Lead'', 50),
      (''Lead '' @ arrow @ '' MQL'', 10), (''MQL '' @ arrow @ '' SQL'', 10),
      (''SQL '' @ arrow @ '' Won'', 10)]"

definition percentages :: "kpi_row \<Rightarrow> npfloat list" where
  \<comment> \<open>the five derived conversion percentages of a row\<close>
  "percentages r =
     [row_ctr r, row_click_to_lead r, row_lead_to_mql r, row_mql_to_sql r, row_sql_to_won r]"

section \<open>Lemmas about rounding\<close>


lemma bit_length_bounds:
  "0 < n \<Longrightarrow> 2 ^ (bit_length n - 1) \<le> n \<and> n < 2 ^ bit_length n"
proof (induction n rule: bit_length.induct)
  case (1 n)
  show ?case
  proof (cases "n div 2 = 0")
    case True
    with "1.prems" have n1: "n = 1" by (simp add: div_eq_0_iff) 
    have "bit_length (1::nat) = 1"
      by (simp add: bit_length.simps)
    with n1 show ?thesis by simp
  next
    case False
    then have pos: "0 < n div 2" by simp
    from "1.prems" have "n \<noteq> 0" by simp
    from "1.IH" [OF this pos]
    have ih: "2 ^ (bit_length (n div 2) - 1) \<le> n div 2" "n div 2 < 2 ^ bit_length (n div 2)"
      by simp_all
    have bl: "bit_length n = Suc (bit_length (n div 2))"
      using \<open>n \<noteq> 0\<close> by (simp add: bit_length.simps [of n])
    have k: "0 < bit_length (n div 2)"
      using pos by (simp add: bit_length.simps [of "n div 2"])
    have "(2::nat) ^ bit_length (n div 2) = 2 * 2 ^ (bit_length (n div 2) - 1)"
      using k by (cases "bit_length (n div 2)") simp_all
    with ih(1) have lo: "2 ^ bit_length (n div 2) \<le> n" by linarith
    from ih(2) have "n < 2 * 2 ^ bit_length (n div 2)" by linarith
    with lo show ?thesis unfolding bl by simp
  qed
qed

lemma rne_of_int [simp]: "rne (of_int n) = n"
  by (simp add: rne_def)

lemma rne_cases:
  "rne x = \<lfloor>x\<rfloor> \<or> rne x = \<lfloor>x\<rfloor> + 1"
  by (simp add: rne_def Let_def)

lemma rne_mono: "x \<le> y \<Longrightarrow> rne x \<le> rne y"
proof -
  assume xy: "x \<le> y"
  then have fl: "\<lfloor>x\<rfloor> \<le> \<lfloor>y\<rfloor>" by (rule floor_mono)
  show ?thesis
  proof (cases "\<lfloor>x\<rfloor> = \<lfloor>y\<rfloor>")
    case False
    with fl have "\<lfloor>x\<rfloor> + 1 \<le> \<lfloor>y\<rfloor>" by simp
    moreover have "rne x \<le> \<lfloor>x\<rfloor> + 1" using rne_cases [of x] by linarith
    moreover have "\<lfloor>y\<rfloor> \<le> rne y" using rne_cases [of y] by linarith
    ultimately show ?thesis by linarith
  next
    case True
    then have "x - of_int \<lfloor>x\<rfloor> \<le> y - of_int \<lfloor>y\<rfloor>" using xy by simp
    then show ?thesis
      unfolding rne_def Let_def True by (simp; linarith)
  qed
qed


lemma rne_minus: "rne (- x) = - rne x"
proof (cases "x = of_int \<lfloor>x\<rfloor>")
  case True
  then obtain n where "x = of_int n" by blast
  then have "rne (- x) = rne (of_int (- n))" by simp
  also have "\<dots> = - n" by (rule rne_of_int)
  finally show ?thesis using \<open>x = of_int n\<close> by simp
next
  case False
  then have lt: "of_int \<lfloor>x\<rfloor> < x" using of_int_floor_le [of x] by linarith
  have f: "\<lfloor>- x\<rfloor> = - \<lfloor>x\<rfloor> - 1"
  proof (rule floor_unique)
    show "of_int (- \<lfloor>x\<rfloor> - 1) \<le> - x"
      using floor_correct [of x] by simp linarith
    show "- x < of_int (- \<lfloor>x\<rfloor> - 1) + 1"
      using lt by simp
  qed
  have d: "- x - of_int \<lfloor>- x\<rfloor> = 1 - (x - of_int \<lfloor>x\<rfloor>)" unfolding f by simp
  have rx: "rne x = (if x - of_int \<lfloor>x\<rfloor> < 1/2 then \<lfloor>x\<rfloor>
                else if 1/2 < x - of_int \<lfloor>x\<rfloor> then \<lfloor>x\<rfloor> + 1
                else if even \<lfloor>x\<rfloor> then \<lfloor>x\<rfloor> else \<lfloor>x\<rfloor> + 1)"
    by (simp add: rne_def Let_def)
  have rm: "rne (- x) = (if 1 - (x - of_int \<lfloor>x\<rfloor>) < 1/2 then - \<lfloor>x\<rfloor> - 1
                else if 1/2 < 1 - (x - of_int \<lfloor>x\<rfloor>) then - \<lfloor>x\<rfloor> - 1 + 1
                else if even (- \<lfloor>x\<rfloor> - 1) then - \<lfloor>x\<rfloor> - 1 else - \<lfloor>x\<rfloor> - 1 + 1)"
    unfolding rne_def Let_def d unfolding f ..
  define t where "t = x - of_int \<lfloor>x\<rfloor>"
  define n where "n = \<lfloor>x\<rfloor>"
  consider "t < 1/2" | "1/2 < t" | "t = 1/2" by linarith
  then show ?thesis
  proof cases
    case 1
    then show ?thesis using rx rm unfolding t_def [symmetric] n_def [symmetric] by simp
  next
    case 2
    then show ?thesis using rx rm unfolding t_def [symmetric] n_def [symmetric] by simp
  next
    case 3
    then show ?thesis using rx rm unfolding t_def [symmetric] n_def [symmetric] by simp
  qed
qed


lemma real_pow2_le: "(2::nat) ^ k \<le> n \<Longrightarrow> (2::real) ^ k \<le> real n"
proof -
  assume "(2::nat) ^ k \<le> n"
  then have "real ((2::nat) ^ k) \<le> real n" by (simp only: of_nat_le_iff)
  then show ?thesis by simp
qed

lemma real_lt_pow2: "n < (2::nat) ^ k \<Longrightarrow> real n + 1 \<le> (2::real) ^ k"
proof -
  assume "n < (2::nat) ^ k"
  then have "Suc n \<le> 2 ^ k" by simp
  then have "real (Suc n) \<le> real ((2::nat) ^ k)" by (simp only: of_nat_le_iff)
  then show ?thesis by simp
qed

lemma bit_length_pos: "0 < n \<Longrightarrow> 0 < bit_length n"
  by (simp add: bit_length.simps [of n])

lemma ilog2_bounds_ge1:
  assumes "1 \<le> x"
  shows "2 powi (ilog2 x) \<le> x \<and> x < 2 powi (ilog2 x + 1)"
proof -
  define n where "n = nat \<lfloor>x\<rfloor>"
  have f1: "1 \<le> \<lfloor>x\<rfloor>" using assms by simp
  have n0: "0 < n" unfolding n_def using f1 by simp
  have rn: "real n = of_int \<lfloor>x\<rfloor>" unfolding n_def using f1 by simp
  have n1: "real n \<le> x" unfolding rn by (rule of_int_floor_le)
  have n2: "x < real n + 1" unfolding rn by linarith
  have e: "ilog2 x = int (bit_length n) - 1"
    using assms by (simp add: ilog2_def n_def)
  from bit_length_bounds [OF n0]
  have b: "2 ^ (bit_length n - 1) \<le> n" "n < 2 ^ bit_length n" by simp_all
  have k: "0 < bit_length n" using n0 by (rule bit_length_pos)
  have e1: "ilog2 x = int (bit_length n - 1)" using e k by simp
  have e2: "ilog2 x + 1 = int (bit_length n)" using e by simp
  have lo: "(2::real) ^ (bit_length n - 1) \<le> x"
    using real_pow2_le [OF b(1)] n1 by linarith
  have hi: "x < (2::real) ^ bit_length n"
    using real_lt_pow2 [OF b(2)] n2 by linarith
  have "2 powi (ilog2 x) \<le> x" unfolding e1 power_int_of_nat by (rule lo)
  moreover have "x < 2 powi (ilog2 x + 1)" unfolding e2 power_int_of_nat by (rule hi)
  ultimately show ?thesis ..
qed


lemma ilog2_bounds_lt1:
  assumes "0 < x" "x < 1"
  shows "2 powi (ilog2 x) \<le> x \<and> x < 2 powi (ilog2 x + 1)"
proof -
  define y where "y = 1 / x"
  have y1: "1 < y" unfolding y_def using assms by simp
  have ypos: "0 < y" using y1 by simp
  have x: "x = 1 / y" unfolding y_def by simp
  define n where "n = nat (\<lceil>y\<rceil> - 1)"
  have c2: "2 \<le> \<lceil>y\<rceil>" using y1 by linarith
  have n0: "0 < n" unfolding n_def using c2 by simp
  have rn: "real n = of_int \<lceil>y\<rceil> - 1" unfolding n_def using c2 by simp
  have n1: "real n < y" unfolding rn by linarith
  have n2: "y \<le> real n + 1" unfolding rn by linarith
  have e: "ilog2 x = - int (bit_length n)"
    using assms by (simp add: ilog2_def n_def y_def)
  from bit_length_bounds [OF n0]
  have b: "2 ^ (bit_length n - 1) \<le> n" "n < 2 ^ bit_length n" by simp_all
  have k: "0 < bit_length n" using n0 by (rule bit_length_pos)
  have ylo: "(2::real) ^ (bit_length n - 1) < y"
    using real_pow2_le [OF b(1)] n1 by linarith
  have yhi: "y \<le> (2::real) ^ bit_length n"
    using real_lt_pow2 [OF b(2)] n2 by linarith
  have lo: "1 / (2::real) ^ bit_length n \<le> 1 / y"
    by (rule divide_left_mono [OF yhi]) (use ypos in simp_all)
  have hi: "1 / y < 1 / (2::real) ^ (bit_length n - 1)"
    by (rule divide_strict_left_mono [OF ylo]) (use ypos in simp_all)
  have p1: "(2::real) powi (- int (bit_length n)) = 1 / 2 ^ bit_length n"
    by (simp only: power_int_minus_divide power_int_of_nat)
  have "- int (bit_length n) + 1 = - int (bit_length n - 1)" using k by simp
  then have p2: "(2::real) powi (- int (bit_length n) + 1) = 1 / 2 ^ (bit_length n - 1)"
    by (simp only: power_int_minus_divide power_int_of_nat)
  have "2 powi (ilog2 x) \<le> x" unfolding e p1 unfolding x by (rule lo)
  moreover have "x < 2 powi (ilog2 x + 1)" unfolding e p2 unfolding x by (rule hi)
  ultimately show ?thesis ..
qed

lemma ilog2_bounds:
  "0 < x \<Longrightarrow> 2 powi (ilog2 x) \<le> x \<and> x < 2 powi (ilog2 x + 1)"
  using ilog2_bounds_ge1 [of x] ilog2_bounds_lt1 [of x] by (cases "1 \<le> x") simp_all


lemma fl_zero [simp]: "fl 0 = 0"
  by (simp add: fl_def)

lemma fl_minus: "fl (- x) = - fl x"
proof (cases "x = 0")
  case True
  then show ?thesis by simp
next
  case False
  define u :: real where "u = 2 powi (ilog2 \<bar>x\<bar> - 52)"
  have "fl (- x) = of_int (rne (- (x / u))) * u"
    using False by (simp add: fl_def u_def Let_def)
  also have "\<dots> = - (of_int (rne (x / u)) * u)"
    by (simp add: rne_minus)
  also have "\<dots> = - fl x"
    using False by (simp add: fl_def u_def Let_def)
  finally show ?thesis .
qed

lemma fl_pos_eq:
  "0 < x \<Longrightarrow> fl x = of_int (rne (x / 2 powi (ilog2 x - 52))) * 2 powi (ilog2 x - 52)"
  by (simp add: fl_def Let_def)

lemma scaled_bounds:
  assumes "0 < x"
  shows "2 ^ 52 \<le> x / 2 powi (ilog2 x - 52) \<and> x / 2 powi (ilog2 x - 52) < 2 ^ 53"
proof -
  define e where "e = ilog2 x"
  define u :: real where "u = 2 powi (e - 52)"
  have upos: "0 < u" unfolding u_def by simp
  from ilog2_bounds [OF assms] have b: "2 powi e \<le> x" "x < 2 powi (e + 1)"
    unfolding e_def by simp_all
  have p52: "(2::real) powi e = 2 ^ 52 * u"
    unfolding u_def by (simp add: power_int_diff)
  have "(2::real) powi (e + 1) = 2 powi e * 2" by (simp add: power_int_add)
  then have p53: "(2::real) powi (e + 1) = 2 ^ 53 * u" unfolding p52 by simp
  have "2 ^ 52 * u \<le> x" using b(1) unfolding p52 .
  then have lo: "2 ^ 52 \<le> x / u" using upos by (simp add: pos_le_divide_eq)
  have "x < 2 ^ 53 * u" using b(2) unfolding p53 .
  then have hi: "x / u < 2 ^ 53" using upos by (simp add: pos_divide_less_eq)
  show ?thesis using lo hi unfolding u_def e_def by simp
qed

lemma rne_ge: "of_int n \<le> x \<Longrightarrow> n \<le> rne x"
  using rne_mono [of "of_int n" x] by simp

lemma rne_le: "x \<le> of_int n \<Longrightarrow> rne x \<le> n"
  using rne_mono [of x "of_int n"] by simp

lemma fl_range:
  assumes "0 < x"
  shows "2 powi (ilog2 x) \<le> fl x \<and> fl x \<le> 2 powi (ilog2 x + 1)"
proof -
  define e where "e = ilog2 x"
  define u :: real where "u = 2 powi (e - 52)"
  define m where "m = rne (x / u)"
  have upos: "0 < u" unfolding u_def by simp
  have f: "fl x = of_int m * u" unfolding m_def u_def e_def by (rule fl_pos_eq [OF assms])
  from scaled_bounds [OF assms] have s: "2 ^ 52 \<le> x / u" "x / u < 2 ^ 53"
    unfolding u_def e_def by simp_all
  have "of_int (2 ^ 52) \<le> x / u" using s(1) by simp
  then have m1: "2 ^ 52 \<le> m" unfolding m_def by (rule rne_ge)
  have "x / u \<le> of_int (2 ^ 53)" using s(2) by simp
  then have m2: "m \<le> 2 ^ 53" unfolding m_def by (rule rne_le)
  have p52: "(2::real) powi e = 2 ^ 52 * u"
    unfolding u_def by (simp add: power_int_diff)
  have "(2::real) powi (e + 1) = 2 powi e * 2" by (simp add: power_int_add)
  then have p53: "(2::real) powi (e + 1) = 2 ^ 53 * u" unfolding p52 by simp
  have "(2::real) ^ 52 \<le> of_int m" using m1 by (metis of_int_le_iff of_int_numeral of_int_power)
  then have lo: "2 ^ 52 * u \<le> of_int m * u" using upos by simp
  have "of_int m \<le> (2::real) ^ 53" using m2 by (metis of_int_le_iff of_int_numeral of_int_power)
  then have hi: "of_int m * u \<le> 2 ^ 53 * u" using upos by simp
  show ?thesis unfolding e_def [symmetric] f p52 p53 using lo hi by simp
qed

lemma fl_pos: "0 < x \<Longrightarrow> 0 < fl x"
proof -
  assume x: "0 < x"
  have "(0::real) < 2 powi (ilog2 x)" by simp
  with fl_range [OF x] show ?thesis by linarith
qed

lemma fl_mono_pos:
  assumes "0 < x" "x \<le> y"
  shows "fl x \<le> fl y"
proof -
  have ypos: "0 < y" using assms by simp
  note bx = ilog2_bounds [OF assms(1)] and by' = ilog2_bounds [OF ypos]
  have le: "ilog2 x \<le> ilog2 y"
  proof (rule ccontr)
    assume "\<not> ilog2 x \<le> ilog2 y"
    then have "ilog2 y + 1 \<le> ilog2 x" by simp
    then have "(2::real) powi (ilog2 y + 1) \<le> 2 powi (ilog2 x)"
      by (rule power_int_increasing) simp
    with bx by' assms(2) show False by linarith
  qed
  show ?thesis
  proof (cases "ilog2 x = ilog2 y")
    case True
    define u :: real where "u = 2 powi (ilog2 y - 52)"
    have upos: "0 < u" unfolding u_def by simp
    have "x / u \<le> y / u" using assms(2) upos by (simp add: divide_right_mono)
    then have "rne (x / u) \<le> rne (y / u)" by (rule rne_mono)
    then have "(of_int (rne (x / u)) :: real) \<le> of_int (rne (y / u))" by simp
    then have "of_int (rne (x / u)) * u \<le> of_int (rne (y / u)) * u"
      using upos by simp
    then show ?thesis
      unfolding fl_pos_eq [OF assms(1)] fl_pos_eq [OF ypos] True u_def .
  next
    case False
    with le have "ilog2 x + 1 \<le> ilog2 y" by simp
    then have "(2::real) powi (ilog2 x + 1) \<le> 2 powi (ilog2 y)"
      by (rule power_int_increasing) simp
    with fl_range [OF assms(1)] fl_range [OF ypos] show ?thesis by linarith
  qed
qed

lemma fl_nonneg: "0 \<le> x \<Longrightarrow> 0 \<le> fl x"
  using fl_pos [of x] by (cases "x = 0") simp_all

lemma fl_mono: "x \<le> y \<Longrightarrow> fl x \<le> fl y"
proof -
  assume xy: "x \<le> y"
  consider "0 < x" | "x = 0" | "x < 0" "y < 0" | "x < 0" "0 \<le> y" by linarith
  then show ?thesis
  proof cases
    case 1
    then show ?thesis using xy by (rule fl_mono_pos)
  next
    case 2
    then show ?thesis using xy fl_nonneg [of y] by simp
  next
    case 3
    then have "0 < - y" "- y \<le> - x" using xy by simp_all
    then have "fl (- y) \<le> fl (- x)" by (rule fl_mono_pos)
    then show ?thesis by (simp add: fl_minus)
  next
    case 4
    then have "0 \<le> fl (- x)" by (intro fl_nonneg) simp
    then have "fl x \<le> 0" by (simp add: fl_minus)
    with fl_nonneg [OF 4(2)] show ?thesis by linarith
  qed
qed

lemma fl_1: "fl 1 = 1" by code_simp
lemma fl_100: "fl 100 = 100" by code_simp


lemma fl_abs: "fl \<bar>x\<bar> = \<bar>fl x\<bar>"
proof (cases "0 \<le> x")
  case True
  then show ?thesis using fl_nonneg [of x] by simp
next
  case False
  then have "0 \<le> fl (- x)" by (intro fl_nonneg) simp
  with False show ?thesis by (simp add: fl_minus)
qed

lemma abs_fl_le: "\<bar>x\<bar> \<le> y \<Longrightarrow> fl y = y \<Longrightarrow> \<bar>fl x\<bar> \<le> y"
proof -
  assume a: "\<bar>x\<bar> \<le> y" and e: "fl y = y"
  from a have "fl \<bar>x\<bar> \<le> fl y" by (rule fl_mono)
  then show ?thesis unfolding fl_abs e .
qed

lemma ilog2_unique:
  assumes "0 < x" "2 powi e \<le> x" "x < 2 powi (e + 1)"
  shows "ilog2 x = e"
proof (rule ccontr)
  assume ne: "ilog2 x \<noteq> e"
  note b = ilog2_bounds [OF assms(1)]
  show False
  proof (cases "ilog2 x < e")
    case True
    then have "ilog2 x + 1 \<le> e" by simp
    then have "(2::real) powi (ilog2 x + 1) \<le> 2 powi e"
      by (rule power_int_increasing) simp
    with b assms(2) show False by linarith
  next
    case False
    with ne have "e + 1 \<le> ilog2 x" by simp
    then have "(2::real) powi (e + 1) \<le> 2 powi (ilog2 x)"
      by (rule power_int_increasing) simp
    with b assms(3) show False by linarith
  qed
qed

lemma fl_powi2: "fl (2 powi e) = 2 powi e"
proof -
  define x :: real where "x = 2 powi e"
  have xpos: "0 < x" unfolding x_def by simp
  have "(2::real) powi (e + 1) = 2 powi e * 2" by (simp add: power_int_add)
  then have "x < 2 powi (e + 1)" using xpos unfolding x_def by simp
  then have e: "ilog2 x = e" using xpos by (intro ilog2_unique) (simp_all add: x_def)
  define u :: real where "u = 2 powi (e - 52)"
  have upos: "0 < u" unfolding u_def by simp
  have xu: "x = 2 ^ 52 * u" unfolding x_def u_def by (simp add: power_int_diff)
  then have "x / u = of_int (2 ^ 52)" using upos by simp
  then have r: "rne (x / u) = 2 ^ 52" by (simp only: rne_of_int)
  have "fl x = of_int (rne (x / u)) * u"
    unfolding u_def using fl_pos_eq [OF xpos] e by simp
  also have "\<dots> = of_int (2 ^ 52) * u" by (simp only: r)
  also have "\<dots> = x" by (simp add: xu)
  finally show ?thesis unfolding x_def .
qed

lemma fl_pow2_1000: "fl (2 ^ 1000) = 2 ^ 1000"
  using fl_powi2 [of 1000] by simp

lemma fl_pow2_1007: "fl (2 ^ 1007) = 2 ^ 1007"
  using fl_powi2 [of 1007] by simp

lemma quotient_in_range:
  assumes "prev \<noteq> 0" "\<bar>cur\<bar> < 2 ^ 1000"
  shows "\<bar>fl (of_int cur / of_int prev)\<bar> \<le> 2 ^ 1000"
    and "\<bar>fmul (fl (of_int cur / of_int prev)) (fl 100)\<bar> \<le> 2 ^ 1007"
proof -
  have p1: "1 \<le> \<bar>real_of_int prev\<bar>" using assms(1) by (simp add: of_int_abs [symmetric] del: of_int_abs)
  have "\<bar>real_of_int cur\<bar> \<le> 2 ^ 1000"
  proof -
    from assms(2) have "\<bar>cur\<bar> \<le> 2 ^ 1000" by simp
    then have "real_of_int \<bar>cur\<bar> \<le> real_of_int (2 ^ 1000)" by (simp only: of_int_le_iff)
    then show ?thesis by simp
  qed
  moreover have "\<bar>real_of_int cur / real_of_int prev\<bar> \<le> \<bar>real_of_int cur\<bar>"
  proof -
    have "\<bar>real_of_int cur\<bar> / \<bar>real_of_int prev\<bar> \<le> \<bar>real_of_int cur\<bar> / 1"
      by (rule divide_left_mono) (use p1 in simp_all)
    then show ?thesis by simp
  qed
  ultimately have q: "\<bar>real_of_int cur / real_of_int prev\<bar> \<le> 2 ^ 1000" by linarith
  then show a: "\<bar>fl (of_int cur / of_int prev)\<bar> \<le> 2 ^ 1000"
    by (rule abs_fl_le) (rule fl_pow2_1000)
  have "\<bar>fl (of_int cur / of_int prev) * fl 100\<bar> = \<bar>fl (of_int cur / of_int prev)\<bar> * 100"
    by (simp add: fl_100 abs_mult)
  also have "\<dots> \<le> 2 ^ 1000 * 100" using a by simp
  also have "\<dots> \<le> (2::real) ^ 1007" by simp
  finally have "\<bar>fl (of_int cur / of_int prev) * fl 100\<bar> \<le> 2 ^ 1007" .
  then show "\<bar>fmul (fl (of_int cur / of_int prev)) (fl 100)\<bar> \<le> 2 ^ 1007"
    unfolding fmul_def by (rule abs_fl_le) (rule fl_pow2_1007)
qed

section \<open>Lemmas about the loops\<close>

lemma length_clamp_from [simp]: "length (clamp_from p cs) = length cs"
  by (induction cs arbitrary: p) simp_all

lemma length_clamp_monotone [simp]: "length (clamp_monotone cs) = length cs"
  by (cases cs) (simp_all add: clamp_monotone_def)

lemma clamp_from_le: "x \<in> set (clamp_from p cs) \<Longrightarrow> x \<le> p"
proof (induction cs arbitrary: p)
  case Nil
  then show ?case by simp
next
  case (Cons c cs)
  from Cons.prems have "x = min c p \<or> x \<in> set (clamp_from (min c p) cs)" by simp
  then show ?case
  proof
    assume "x = min c p" then show ?thesis by simp
  next
    assume "x \<in> set (clamp_from (min c p) cs)"
    from Cons.IH [OF this] show ?thesis by simp
  qed
qed

lemma clamp_from_all_le: "\<forall>x \<in> set (clamp_from p cs). x \<le> p"
proof
  fix x assume "x \<in> set (clamp_from p cs)"
  then show "x \<le> p" by (rule clamp_from_le)
qed

lemma clamp_from_sorted: "sorted_wrt (\<ge>) (clamp_from p cs)"
proof (induction cs arbitrary: p)
  case Nil
  show ?case by simp
next
  case (Cons c cs)
  have "sorted_wrt (\<ge>) (min c p # clamp_from (min c p) cs)"
    unfolding sorted_wrt.simps
    using Cons.IH [of "min c p"] clamp_from_all_le [of "min c p" cs] by blast
  then show ?case by (simp only: clamp_from.simps)
qed

lemma clamp_monotone_sorted: "sorted_wrt (\<ge>) (clamp_monotone cs)"
proof (cases cs)
  case Nil
  then show ?thesis by (simp add: clamp_monotone_def)
next
  case (Cons c cs')
  have "sorted_wrt (\<ge>) (c # clamp_from c cs')"
    unfolding sorted_wrt.simps
    using clamp_from_sorted [of c cs'] clamp_from_all_le [of c cs'] by blast
  with Cons show ?thesis by (simp only: clamp_monotone_def list.case)
qed

lemma sorted_wrt_non_increasing:
  assumes "sorted_wrt (\<ge>) xs"
  shows "non_increasing xs"
  unfolding non_increasing_def
proof (intro allI impI)
  fix i assume "i + 1 < length xs"
  then have "i < i + 1" "i + 1 < length xs" by simp_all
  from sorted_wrt_nth_less [OF assms this] show "xs ! (i + 1) \<le> xs ! i" .
qed

lemma clamp_monotone_non_increasing: "non_increasing (clamp_monotone cs)"
  by (rule sorted_wrt_non_increasing [OF clamp_monotone_sorted])

lemma non_increasing_six:
  "b \<le> a \<Longrightarrow> c \<le> b \<Longrightarrow> d \<le> c \<Longrightarrow> e \<le> d \<Longrightarrow> f \<le> e \<Longrightarrow>
   non_increasing [a, b, c, d, e, f]"
  unfolding non_increasing_def
proof (intro allI impI)
  fix i :: nat
  assume a: "b \<le> a" "c \<le> b" "d \<le> c" "e \<le> d" "f \<le> e"
    and "i + 1 < length [a, b, c, d, e, f]"
  then have "i < 5" by simp
  then have "i = 0 \<or> i = 1 \<or> i = 2 \<or> i = 3 \<or> i = 4" by arith
  with a show "[a, b, c, d, e, f] ! (i + 1) \<le> [a, b, c, d, e, f] ! i"
    by (elim disjE) simp_all
qed

lemma make_dummy_funnel_shape:
  "\<exists>b c l m s w. make_dummy_funnel G seed =
     [b, min c b, min l (min c b), min m (min l (min c b)),
      min s (min m (min l (min c b))), min w (min s (min m (min l (min c b))))]"
  unfolding make_dummy_funnel_def Let_def case_prod_beta
  by (intro exI) (rule refl)

lemma good_entries_upd:
  "good_entries n m \<Longrightarrow> length cs = n \<Longrightarrow> non_increasing cs \<Longrightarrow> good_entries n (m(e \<mapsto> cs))"
  unfolding good_entries_def by (simp split: if_splits)

lemma per_emp_loop_good:
  "good_entries (length all_counts) m \<Longrightarrow>
   good_entries (length all_counts) (per_emp_loop G all_counts r wes m)"
proof (induction wes arbitrary: r m)
  case Nil
  then show ?case by simp
next
  case (Cons we wes)
  obtain w e where we: "we = (w, e)" by (cases we)
  obtain z r' where z: "gen_normal G r (fl 1) (fl (8/100)) = (z, r')"
    by (cases "gen_normal G r (fl 1) (fl (8/100))")
  define cs where "cs = clamp_monotone (map (\<lambda>c. py_int (fmul (float_of_int c)
      (fmul w (clip z (fl (85/100)) (fl (115/100)))))) all_counts)"
  have step: "per_emp_loop G all_counts r (we # wes) m
      = per_emp_loop G all_counts r' wes (m(e \<mapsto> cs))"
    unfolding we cs_def using z by (simp add: Let_def)
  have "length cs = length all_counts" "non_increasing cs"
    unfolding cs_def by (simp_all add: clamp_monotone_non_increasing)
  with Cons.prems have "good_entries (length all_counts) (m(e \<mapsto> cs))"
    by (simp add: good_entries_upd)
  from Cons.IH [OF this] show ?case unfolding step .
qed

lemma per_emp_loop_defined:
  "m e \<noteq> None \<or> e \<in> snd ` set wes \<Longrightarrow> per_emp_loop G all_counts r wes m e \<noteq> None"
proof (induction wes arbitrary: r m)
  case Nil
  then show ?case by simp
next
  case (Cons we wes)
  obtain w e' where we: "we = (w, e')" by (cases we)
  obtain z r' where z: "gen_normal G r (fl 1) (fl (8/100)) = (z, r')"
    by (cases "gen_normal G r (fl 1) (fl (8/100))")
  define cs where "cs = clamp_monotone (map (\<lambda>c. py_int (fmul (float_of_int c)
      (fmul w (clip z (fl (85/100)) (fl (115/100)))))) all_counts)"
  have step: "per_emp_loop G all_counts r (we # wes) m
      = per_emp_loop G all_counts r' wes (m(e' \<mapsto> cs))"
    unfolding we cs_def using z by (simp add: Let_def)
  have "(m(e' \<mapsto> cs)) e \<noteq> None \<or> e \<in> snd ` set wes"
    using Cons.prems unfolding we by auto
  then have "per_emp_loop G all_counts r' wes (m(e' \<mapsto> cs)) e \<noteq> None"
    by (rule Cons.IH [of "m(e' \<mapsto> cs)" r'])
  then show ?case unfolding step .
qed

lemma per_emp_loop_undefined:
  "m e = None \<Longrightarrow> e \<notin> snd ` set wes \<Longrightarrow> per_emp_loop G all_counts r wes m e = None"
proof (induction wes arbitrary: r m)
  case Nil
  then show ?case by simp
next
  case (Cons we wes)
  obtain w e' where we: "we = (w, e')" by (cases we)
  obtain z r' where z: "gen_normal G r (fl 1) (fl (8/100)) = (z, r')"
    by (cases "gen_normal G r (fl 1) (fl (8/100))")
  define cs where "cs = clamp_monotone (map (\<lambda>c. py_int (fmul (float_of_int c)
      (fmul w (clip z (fl (85/100)) (fl (115/100)))))) all_counts)"
  have step: "per_emp_loop G all_counts r (we # wes) m
      = per_emp_loop G all_counts r' wes (m(e' \<mapsto> cs))"
    unfolding we cs_def using z by (simp add: Let_def)
  have ne: "e \<noteq> e'" and nin: "e \<notin> snd ` set wes"
    using Cons.prems(2) unfolding we by auto
  have "(m(e' \<mapsto> cs)) e = None" using Cons.prems(1) ne by simp
  then have "per_emp_loop G all_counts r' wes (m(e' \<mapsto> cs)) e = None"
    using nin by (rule Cons.IH [of "m(e' \<mapsto> cs)" r'])
  then show ?case unfolding step .
qed

lemma add_counts_ok:
  "length s \<le> length c \<Longrightarrow> add_counts s c = Inr (map2 (+) s c)"
  by (induction s c rule: add_counts.induct) simp_all

lemma sum_loop_ok:
  "(\<forall>e \<in> set es. \<exists>cs. m e = Some cs \<and> length cs = length s) \<Longrightarrow>
   \<exists>t. sum_loop m es s = Inr t \<and> length t = length s \<and>
       (\<forall>i < length s. t ! i = s ! i + (\<Sum>e \<leftarrow> es. the (m e) ! i))"
proof (induction es arbitrary: s)
  case Nil
  then show ?case by simp
next
  case (Cons e es)
  from Cons.prems obtain cs where cs: "m e = Some cs" "length cs = length s" by auto
  define s' where "s' = map2 (+) s cs"
  have a: "add_counts s cs = Inr s'"
    unfolding s'_def using cs by (simp add: add_counts_ok)
  have len: "length s' = length s" unfolding s'_def using cs by simp
  have nth: "\<forall>i < length s. s' ! i = s ! i + cs ! i"
    unfolding s'_def using cs by simp
  have "\<forall>e \<in> set es. \<exists>cs'. m e = Some cs' \<and> length cs' = length s'"
    using Cons.prems len by simp
  from Cons.IH [OF this] obtain t where
    t: "sum_loop m es s' = Inr t" "length t = length s'"
       "\<forall>i < length s'. t ! i = s' ! i + (\<Sum>e \<leftarrow> es. the (m e) ! i)"
    by blast
  have "sum_loop m (e # es) s = Inr t" using cs a t(1) by simp
  moreover have "length t = length s" using t(2) len by simp
  moreover have "\<forall>i < length s. t ! i = s ! i + (\<Sum>e \<leftarrow> e # es. the (m e) ! i)"
    using t(3) nth len cs(1) by simp
  ultimately show ?case by blast
qed

lemma months_loop_collect:
  "months_loop G base r idx ms =
     collect (\<lambda>(m, d). month_row m base d) (zip ms (drifts_from G r idx (length ms)))"
proof (induction ms arbitrary: r idx)
  case Nil
  show ?case by simp
next
  case (Cons m ms)
  obtain z r' where z: "gen_normal G r (fl 0) (fl (3/100)) = (z, r')"
    by (cases "gen_normal G r (fl 0) (fl (3/100))")
  show ?case
    using z by (simp add: Let_def Cons.IH [of r' "Suc idx"] cong: sum.case_cong)
qed

lemma length_six:
  "length xs = 6 \<Longrightarrow> \<exists>a b c d e f. xs = [a, b, c, d, e, f]"
  by (auto simp: numeral_eq_Suc length_Suc_conv)

lemma length_drifts_from [simp]: "length (drifts_from G r idx n) = n"
proof (induction n arbitrary: r idx)
  case 0
  show ?case by simp
next
  case (Suc n)
  obtain z r' where z: "gen_normal G r (fl 0) (fl (3/100)) = (z, r')"
    by (cases "gen_normal G r (fl 0) (fl (3/100))")
  show ?case using z by (simp add: Let_def Suc.IH)
qed

lemma collect_total:
  "(\<forall>x \<in> set xs. f x = Inr (g x)) \<Longrightarrow> collect f xs = Inr (map g xs)"
  by (induction xs) simp_all

lemma month_row_ok:
  assumes "length base = 6"
  shows "month_row m base d =
           Inr (row_of m (clamp_monotone (map (\<lambda>b. astype_int (fmul b d)) base)))"
proof -
  define vals where "vals = clamp_monotone (map (\<lambda>b. astype_int (fmul b d)) base)"
  have "length vals = 6" unfolding vals_def using assms by simp
  then obtain a b c d' e f where v: "vals = [a, b, c, d', e, f]"
    using length_six by blast
  have "month_row m base d = (case vals of
           [imp, clk, lead, mql, sql, won] \<Rightarrow>
             Inr \<lparr>row_month = m, row_impressions = imp, row_clicks = clk, row_leads = lead,
                  row_mql = mql, row_sql = sql, row_won = won,
                  row_ctr = safe_pct clk imp, row_click_to_lead = safe_pct lead clk,
                  row_lead_to_mql = safe_pct mql lead, row_mql_to_sql = safe_pct sql mql,
                  row_sql_to_won = safe_pct won sql\<rparr>
         | _ \<Rightarrow> Inl ValueError)"
    unfolding month_row_def vals_def Let_def ..
  also have "\<dots> = Inr (row_of m vals)"
    unfolding v row_of_def by simp
  finally show ?thesis unfolding vals_def .
qed

lemma stage_counts_row_of:
  "length vals = 6 \<Longrightarrow> stage_counts (row_of m vals) = vals"
proof -
  assume "length vals = 6"
  then obtain a b c d e f where v: "vals = [a, b, c, d, e, f]"
    using length_six by blast
  show ?thesis unfolding v stage_counts_def row_of_def by simp
qed

lemma make_3_months_kpis_collect:
  "make_3_months_kpis G now counts seed =
     collect (\<lambda>(m, d). month_row m (map float_of_int counts) d)
       (zip (months_of now) (month_drifts G seed))"
proof -
  have l: "length (months_of now) = 3" by (simp add: months_of_def)
  have "make_3_months_kpis G now counts seed
        = months_loop G (map float_of_int counts) (rng G seed) 0 (months_of now)"
    by (simp only: make_3_months_kpis_def Let_def months_of_def)
  also have "\<dots> = collect (\<lambda>(m, d). month_row m (map float_of_int counts) d)
       (zip (months_of now) (drifts_from G (rng G seed) 0 (length (months_of now))))"
    by (rule months_loop_collect)
  finally show ?thesis by (simp only: l month_drifts_def)
qed

lemma make_3_months_kpis_eq:
  assumes "length counts = 6"
  shows "make_3_months_kpis G now counts seed =
           Inr (map (\<lambda>(m, d). row_of m (month_vals counts d))
                  (zip (months_of now) (month_drifts G seed)))"
proof -
  have lb: "length (map float_of_int counts) = 6" using assms by simp
  have "\<forall>x \<in> set (zip (months_of now) (month_drifts G seed)).
          (\<lambda>(m, d). month_row m (map float_of_int counts) d) x
            = Inr ((\<lambda>(m, d). row_of m (month_vals counts d)) x)"
  proof
    fix x assume "x \<in> set (zip (months_of now) (month_drifts G seed))"
    obtain m d where x: "x = (m, d)" by (cases x)
    show "(\<lambda>(m, d). month_row m (map float_of_int counts) d) x
            = Inr ((\<lambda>(m, d). row_of m (month_vals counts d)) x)"
      unfolding x month_vals_def using month_row_ok [OF lb, of m d] by simp
  qed
  from collect_total [OF this] show ?thesis
    unfolding make_3_months_kpis_collect .
qed

lemma month_drifts_shape:
  "\<exists>z0 z1 z2. month_drifts G seed = [drift_of 0 z0, drift_of 1 z1, drift_of 2 z2]"
proof -
  have three: "(3::nat) = Suc (Suc (Suc 0))" by simp
  show ?thesis
    unfolding month_drifts_def three drifts_from.simps Let_def case_prod_beta
    by (simp add: numeral_2_eq_2) blast
qed

lemma length_month_vals [simp]: "length (month_vals counts d) = length counts"
  by (simp add: month_vals_def)

lemma month_vals_non_increasing: "non_increasing (month_vals counts d)"
  unfolding month_vals_def by (rule clamp_monotone_non_increasing)

lemma emps_names: "snd ` set (zip weights emps) = set emps"
  by (simp add: weights_def emps_def Let_def)

lemma All_not_emp: "''All'' \<notin> set emps"
  by (simp add: emps_def Sofia_def)

lemma split_by_employees_ok:
  "\<exists>per_emp summed.
     split_by_employees G all_counts seed = Inr (per_emp(''All'' \<mapsto> summed)) \<and>
     good_entries (length all_counts) per_emp \<and>
     (\<forall>e \<in> set emps. per_emp e \<noteq> None) \<and>
     length summed = length all_counts \<and>
     (\<forall>i < length all_counts. summed ! i = (\<Sum>e \<leftarrow> emps. the (per_emp e) ! i)) \<and>
     (\<forall>e. e \<notin> set emps \<longrightarrow> per_emp e = None)"
proof -
  define per_emp where
    "per_emp = per_emp_loop G all_counts (rng G seed) (zip weights emps) Map.empty"
  have g0: "good_entries (length all_counts) Map.empty"
    by (simp add: good_entries_def)
  have good: "good_entries (length all_counts) per_emp"
    unfolding per_emp_def by (rule per_emp_loop_good [OF g0])
  have def: "\<forall>e \<in> set emps. per_emp e \<noteq> None"
  proof
    fix e assume "e \<in> set emps"
    then have "Map.empty e \<noteq> None \<or> e \<in> snd ` set (zip weights emps)"
      by (simp only: emps_names) simp
    then show "per_emp e \<noteq> None"
      unfolding per_emp_def by (rule per_emp_loop_defined)
  qed
  have "\<forall>e \<in> set emps. \<exists>cs. per_emp e = Some cs
          \<and> length cs = length (replicate (length all_counts) (0::int))"
  proof
    fix e assume "e \<in> set emps"
    with def obtain cs where cs: "per_emp e = Some cs" by auto
    with good have "length cs = length all_counts" by (simp add: good_entries_def)
    with cs show "\<exists>cs. per_emp e = Some cs
          \<and> length cs = length (replicate (length all_counts) (0::int))" by simp
  qed
  from sum_loop_ok [OF this] obtain t where
    t: "sum_loop per_emp emps (replicate (length all_counts) 0) = Inr t"
       "length t = length all_counts"
       "\<forall>i < length all_counts. t ! i = (\<Sum>e \<leftarrow> emps. the (per_emp e) ! i)"
    by auto
  have "split_by_employees G all_counts seed = Inr (per_emp(''All'' \<mapsto> t))"
    unfolding split_by_employees_def Let_def per_emp_def [symmetric] using t(1) by simp
  moreover have "\<forall>e. e \<notin> set emps \<longrightarrow> per_emp e = None"
  proof (intro allI impI)
    fix e assume "e \<notin> set emps"
    then have nin: "e \<notin> snd ` set (zip weights emps)" unfolding emps_names .
    show "per_emp e = None"
      unfolding per_emp_def by (rule per_emp_loop_undefined [OF _ nin]) simp
  qed
  ultimately show ?thesis using good def t(2,3) by blast
qed

lemma length_make_dummy_funnel: "length (make_dummy_funnel G seed) = 6"
proof -
  from make_dummy_funnel_shape [of G seed] obtain xs where
    "make_dummy_funnel G seed = xs" "length xs = 6" by fastforce
  then show ?thesis by simp
qed

lemma make_dummy_funnel_non_increasing: "non_increasing (make_dummy_funnel G seed)"
proof -
  from make_dummy_funnel_shape [of G seed] obtain b c l m s w where
    eq: "make_dummy_funnel G seed =
     [b, min c b, min l (min c b), min m (min l (min c b)),
      min s (min m (min l (min c b))), min w (min s (min m (min l (min c b))))]"
    by blast
  show ?thesis
    unfolding eq by (rule non_increasing_six) (rule min.cobounded2)+
qed

lemma max_item_decomp:
  "L = pre @ b # mid @ xs \<Longrightarrow> (\<forall>y \<in> set pre. snd y < snd b) \<Longrightarrow>
   (\<forall>z \<in> set mid. snd z \<le> snd b) \<Longrightarrow>
   \<exists>ys zs. L = ys @ max_item b xs # zs \<and>
     (\<forall>y \<in> set ys. snd y < snd (max_item b xs)) \<and>
     (\<forall>z \<in> set zs. snd z \<le> snd (max_item b xs))"
proof (induction xs arbitrary: b pre mid)
  case Nil
  then show ?case by auto
next
  case (Cons x xs)
  show ?case
  proof (cases "snd b < snd x")
    case True
    have 1: "L = (pre @ b # mid) @ x # [] @ xs" using Cons.prems(1) by simp
    have 2: "\<forall>y \<in> set (pre @ b # mid). snd y < snd x"
      using Cons.prems(2,3) True by auto
    have 3: "\<forall>z \<in> set ([] :: (string \<times> real) list). snd z \<le> snd x" by simp
    from Cons.IH [OF 1 2 3] show ?thesis using True by simp
  next
    case False
    have 1: "L = pre @ b # (mid @ [x]) @ xs" using Cons.prems(1) by simp
    have 3: "\<forall>z \<in> set (mid @ [x]). snd z \<le> snd b"
      using Cons.prems(3) False by auto
    from Cons.IH [OF 1 Cons.prems(2) 3] show ?thesis using False by simp
  qed
qed

lemma min_item_decomp:
  "L = pre @ b # mid @ xs \<Longrightarrow> (\<forall>y \<in> set pre. snd b < snd y) \<Longrightarrow>
   (\<forall>z \<in> set mid. snd b \<le> snd z) \<Longrightarrow>
   \<exists>ys zs. L = ys @ min_item b xs # zs \<and>
     (\<forall>y \<in> set ys. snd (min_item b xs) < snd y) \<and>
     (\<forall>z \<in> set zs. snd (min_item b xs) \<le> snd z)"
proof (induction xs arbitrary: b pre mid)
  case Nil
  then show ?case by auto
next
  case (Cons x xs)
  show ?case
  proof (cases "snd x < snd b")
    case True
    have 1: "L = (pre @ b # mid) @ x # [] @ xs" using Cons.prems(1) by simp
    have 2: "\<forall>y \<in> set (pre @ b # mid). snd x < snd y"
      using Cons.prems(2,3) True by auto
    have 3: "\<forall>z \<in> set ([] :: (string \<times> real) list). snd x \<le> snd z" by simp
    from Cons.IH [OF 1 2 3] show ?thesis using True by simp
  next
    case False
    have 1: "L = pre @ b # (mid @ [x]) @ xs" using Cons.prems(1) by simp
    have 3: "\<forall>z \<in> set (mid @ [x]). snd b \<le> snd z"
      using Cons.prems(3) False by auto
    from Cons.IH [OF 1 Cons.prems(2) 3] show ?thesis using False by simp
  qed
qed

lemma digit_char_is_digit: "d < 10 \<Longrightarrow> is_digit (digit_char d)"
proof -
  assume d: "d < 10"
  have "\<forall>d \<in> set [0..<10]. is_digit (digit_char d)" by code_simp
  with d show ?thesis by simp
qed

lemma str_nat_digits: "c \<in> set (str_nat n) \<Longrightarrow> is_digit c"
proof (induction n rule: str_nat.induct)
  case (1 n)
  show ?case
  proof (cases "n < 10")
    case True
    with "1.prems" have "c = digit_char n" by (simp add: str_nat.simps [of n])
    with True show ?thesis by (simp add: digit_char_is_digit)
  next
    case False
    with "1.prems" have "c \<in> set (str_nat (n div 10)) \<or> c = digit_char (n mod 10)"
      by (simp add: str_nat.simps [of n]) blast
    then show ?thesis
    proof
      assume "c \<in> set (str_nat (n div 10))"
      with "1.IH" [OF False] show ?thesis by simp
    next
      assume "c = digit_char (n mod 10)"
      then show ?thesis by (simp add: digit_char_is_digit)
    qed
  qed
qed

lemma length_str_nat: "n < 10 ^ k \<Longrightarrow> 0 < k \<Longrightarrow> length (str_nat n) \<le> k"
proof (induction n arbitrary: k rule: str_nat.induct)
  case (1 n)
  show ?case
  proof (cases "n < 10")
    case True
    then have "length (str_nat n) = 1" by (simp add: str_nat.simps [of n])
    with "1.prems" show ?thesis by simp
  next
    case False
    obtain j where k: "k = Suc j" using "1.prems"(2) by (cases k) simp_all
    have j0: "0 < j"
    proof (rule ccontr)
      assume "\<not> 0 < j"
      then have "k = 1" using k by simp
      with "1.prems"(1) False show False by simp
    qed
    have "n div 10 < 10 ^ j" using "1.prems"(1) unfolding k by (simp add: less_mult_imp_div_less)
    from "1.IH" [OF False this j0] have "length (str_nat (n div 10)) \<le> j" .
    moreover have "length (str_nat n) = length (str_nat (n div 10)) + 1"
      using False by (simp add: str_nat.simps [of n])
    ultimately show ?thesis unfolding k by simp
  qed
qed

lemma str_nat_nonempty: "str_nat n \<noteq> []"
  by (simp add: str_nat.simps [of n])

lemma length_zfill: "length s \<le> w \<Longrightarrow> length (zfill w s) = w"
  by (simp add: zfill_def)

lemma zero_is_digit: "is_digit CHR ''0''"
  by code_simp

lemma zfill_digits:
  assumes "\<forall>c \<in> set s. is_digit c" "c \<in> set (zfill w s)"
  shows "is_digit c"
proof -
  from assms(2) have "c \<in> set (replicate (w - length s) CHR ''0'') \<or> c \<in> set s"
    unfolding zfill_def by simp
  then show ?thesis
  proof
    assume "c \<in> set (replicate (w - length s) CHR ''0'')"
    then have "c = CHR ''0''" by simp
    then show ?thesis by (simp only: zero_is_digit)
  next
    assume "c \<in> set s"
    with assms(1) show ?thesis by blast
  qed
qed

lemma rank_kpis_ok:
  assumes "rates \<noteq> []"
  shows "\<exists>w b. rank_kpis rates = Inr (w, b) \<and>
     (\<exists>ys zs. rates = ys @ b # zs \<and> (\<forall>y \<in> set ys. snd y < snd b) \<and>
        (\<forall>z \<in> set zs. snd z \<le> snd b)) \<and>
     (\<exists>ys zs. rates = ys @ w # zs \<and> (\<forall>y \<in> set ys. snd w < snd y) \<and>
        (\<forall>z \<in> set zs. snd w \<le> snd z))"
proof -
  from assms obtain r rs where r: "rates = r # rs" by (cases rates) simp_all
  have e: "rank_kpis rates = Inr (min_item r rs, max_item r rs)"
    unfolding r by (simp add: rank_kpis_def)
  have l: "rates = [] @ r # [] @ rs" unfolding r by simp
  have "\<exists>ys zs. rates = ys @ max_item r rs # zs \<and>
     (\<forall>y \<in> set ys. snd y < snd (max_item r rs)) \<and>
     (\<forall>z \<in> set zs. snd z \<le> snd (max_item r rs))"
    by (rule max_item_decomp [OF l]) simp_all
  moreover have "\<exists>ys zs. rates = ys @ min_item r rs # zs \<and>
     (\<forall>y \<in> set ys. snd (min_item r rs) < snd y) \<and>
     (\<forall>z \<in> set zs. snd (min_item r rs) \<le> snd z)"
    by (rule min_item_decomp [OF l]) simp_all
  ultimately show ?thesis using e by blast
qed

lemma pct_prev_total:
  "pct_prev cur prev =
     Inr (if prev \<noteq> 0 then fmul (fl (of_int cur / of_int prev)) (fl 100) else 0)"
  by (simp add: pct_prev_def int_truediv_def)

lemma overview_of_rank:
  assumes "overview_of [imp, clk, lead, mql, sql, won] = Inr ov"
  shows "\<exists>p1 p2 p3 p4 p5 w b.
     pct_prev clk imp = Inr p1 \<and> pct_prev lead clk = Inr p2 \<and> pct_prev mql lead = Inr p3 \<and>
     pct_prev sql mql = Inr p4 \<and> pct_prev won sql = Inr p5 \<and>
     rank_kpis [(''CTR'', p1), (''Click '' @ arrow @ '' Lead'', p2),
                (''Lead '' @ arrow @ '' MQL'', p3), (''MQL '' @ arrow @ '' SQL'', p4),
                (''SQL '' @ arrow @ '' Won'', p5)] = Inr (w, b) \<and>
     ov_insights ov ! 1 = bullet @ '' Mayor ca'' @ [CHR 0xC3, CHR 0xAD] @ ''da: ''
                              @ fst w @ '' '' @ middot @ '' '' @ pct2 (snd w) \<and>
     ov_insights ov ! 2 = bullet @ '' Mejor etapa: ''
                              @ fst b @ '' '' @ middot @ '' '' @ pct2 (snd b)"
proof -
  obtain fig where fig: "build_funnel_bar [imp, clk, lead, mql, sql, won] = Inr fig"
    using assms by (cases "build_funnel_bar [imp, clk, lead, mql, sql, won]")
      (simp_all add: overview_of_def)
  obtain p1 where p1: "pct_prev clk imp = Inr p1" by (simp add: pct_prev_total)
  obtain p2 where p2: "pct_prev lead clk = Inr p2" by (simp add: pct_prev_total)
  obtain p3 where p3: "pct_prev mql lead = Inr p3" by (simp add: pct_prev_total)
  obtain p4 where p4: "pct_prev sql mql = Inr p4" by (simp add: pct_prev_total)
  obtain p5 where p5: "pct_prev won sql = Inr p5" by (simp add: pct_prev_total)
  define rates where "rates = [(''CTR'', p1), (''Click '' @ arrow @ '' Lead'', p2),
                (''Lead '' @ arrow @ '' MQL'', p3), (''MQL '' @ arrow @ '' SQL'', p4),
                (''SQL '' @ arrow @ '' Won'', p5)]"
  have "rates \<noteq> []" unfolding rates_def by simp
  from rank_kpis_ok [OF this] obtain w b where wb: "rank_kpis rates = Inr (w, b)" by blast
  have "overview_of [imp, clk, lead, mql, sql, won] =
      Inr \<lparr>ov_fig = fig,
           ov_cards =
                   [kpi_card ''impressions'' ''Impressions'' (format_commas imp)
                      ''Base del funnel'',
                    kpi_card ''ctr'' ''CTR'' (pct2 p1) ''Click / Impression'',
                    kpi_card ''click_to_lead'' (''Click '' @ arrow @ '' Lead'') (pct2 p2)
                      ''Lead / Click'',
                    kpi_card ''lead_to_mql'' (''Lead '' @ arrow @ '' MQL'') (pct2 p3)
                      ''MQL / Lead'',
                    kpi_card ''mql_to_sql'' (''MQL '' @ arrow @ '' SQL'') (pct2 p4)
                      ''SQL / MQL'',
                    kpi_card ''sql_to_won'' (''SQL '' @ arrow @ '' Won'') (pct2 p5)
                      ''Won / SQL''],
           ov_insights =
                           [''Insights del rango (dummy)'',
                            bullet @ '' Mayor ca'' @ [CHR 0xC3, CHR 0xAD] @ ''da: ''
                              @ fst w @ '' '' @ middot @ '' '' @ pct2 (snd w),
                            bullet @ '' Mejor etapa: ''
                              @ fst b @ '' '' @ middot @ '' '' @ pct2 (snd b),
                            bullet @ '' Won total: '' @ format_commas won,
                            ''Tip: dale click a un KPI para ver su evoluci''
                              @ [CHR 0xC3, CHR 0xB3] @ ''n 3 meses.'']\<rparr>"
    unfolding overview_of_def
    using fig p1 p2 p3 p4 p5 wb [unfolded rates_def] by (simp add: Let_def)
  with assms have "ov_insights ov ! 1 = bullet @ '' Mayor ca'' @ [CHR 0xC3, CHR 0xAD] @ ''da: ''
                              @ fst w @ '' '' @ middot @ '' '' @ pct2 (snd w)"
    "ov_insights ov ! 2 = bullet @ '' Mejor etapa: ''
                              @ fst b @ '' '' @ middot @ '' '' @ pct2 (snd b)"
    by auto
  with p1 p2 p3 p4 p5 wb show ?thesis unfolding rates_def by blast
qed

lemma pct_prev_str_total: "\<exists>s. pct_prev_str c p = Inr s"
  by (simp add: pct_prev_str_def pct_prev_total)

lemma labels_from_total: "\<exists>ls. labels_from p cs = Inr ls"
proof (induction cs arbitrary: p)
  case Nil
  show ?case by simp
next
  case (Cons c cs)
  from pct_prev_str_total [of c p] obtain s where s: "pct_prev_str c p = Inr s" by blast
  from Cons.IH [of c] obtain ls where ls: "labels_from c cs = Inr ls" by blast
  show ?case using s ls by simp
qed

lemma build_funnel_bar_total: "\<exists>fig. build_funnel_bar counts = Inr fig"
proof (cases counts)
  case Nil
  then show ?thesis by (simp add: build_funnel_bar_def)
next
  case (Cons c cs)
  from labels_from_total [of c cs] obtain ls where "labels_from c cs = Inr ls" by blast
  with Cons show ?thesis by (simp add: build_funnel_bar_def)
qed

lemma overview_of_total:
  assumes "length counts = 6"
  shows "\<exists>ov. overview_of counts = Inr ov"
proof -
  from assms obtain imp clk lead mql sql won where
    c: "counts = [imp, clk, lead, mql, sql, won]" using length_six by blast
  from build_funnel_bar_total [of counts] obtain fig where
    fig: "build_funnel_bar [imp, clk, lead, mql, sql, won] = Inr fig" unfolding c by blast
  show ?thesis
    unfolding c overview_of_def
    using fig by (simp add: pct_prev_total rank_kpis_def Let_def)
qed

lemma format_f_nonneg:
  assumes "0 \<le> x" "0 < k"
  shows "format_f k x = str_nat (nat (rne (\<bar>x\<bar> * 10 ^ k)) div 10 ^ k) @ ''.''
                          @ zfill k (str_nat (nat (rne (\<bar>x\<bar> * 10 ^ k)) mod 10 ^ k))
         \<and> length (zfill k (str_nat (nat (rne (\<bar>x\<bar> * 10 ^ k)) mod 10 ^ k))) = k
         \<and> (\<forall>c \<in> set (str_nat (nat (rne (\<bar>x\<bar> * 10 ^ k)) div 10 ^ k)
                      @ zfill k (str_nat (nat (rne (\<bar>x\<bar> * 10 ^ k)) mod 10 ^ k))). is_digit c)"
proof -
  define r where "r = nat (rne (\<bar>x\<bar> * 10 ^ k))"
  have "r mod 10 ^ k < 10 ^ k" by simp
  then have "length (str_nat (r mod 10 ^ k)) \<le> k" using assms(2) by (rule length_str_nat)
  then have l: "length (zfill k (str_nat (r mod 10 ^ k))) = k" by (rule length_zfill)
  have d1: "\<forall>c \<in> set (str_nat (r div 10 ^ k)). is_digit c"
    using str_nat_digits by blast
  have "\<forall>c \<in> set (str_nat (r mod 10 ^ k)). is_digit c"
    using str_nat_digits by blast
  then have d2: "\<forall>c \<in> set (zfill k (str_nat (r mod 10 ^ k))). is_digit c"
    using zfill_digits by blast
  have f: "format_f k x = str_nat (r div 10 ^ k) @ ''.'' @ zfill k (str_nat (r mod 10 ^ k))"
    using assms(1) by (simp add: format_f_def r_def Let_def)
  from d1 d2 have d: "\<forall>c \<in> set (str_nat (r div 10 ^ k) @ zfill k (str_nat (r mod 10 ^ k))). is_digit c"
    by auto
  show ?thesis using f l d unfolding r_def by blast
qed

lemma spec_rates_rank:
  "rank_kpis spec_rates = Inr ((''Lead '' @ arrow @ '' MQL'', 10), (''CTR'', 50))"
  by (simp add: rank_kpis_def spec_rates_def)

lemma fl_quarter_pct: "fmul (fl (1 / 4)) (fl 100) = 25"
  by code_simp

lemma np_quarter_pct: "fmul (fdiv (float_of_int 1) (float_of_int 4)) (fl 100) = 25"
  by code_simp

lemma hundredths_2300000: "hundredths 2300000 = 230" by code_simp

lemma tenths_1500: "tenths 1500 = 15" by code_simp

lemma EMPLOYEES_emps: "set EMPLOYEES = insert ''All'' (set emps)"
  by (simp add: EMPLOYEES_def emps_def)

lemma DATA_BY_EMP_ok:
  "\<exists>D a. DATA_BY_EMP G = Inr D \<and> D ''All'' = Some a \<and> length a = 6 \<and>
     (\<forall>e cs. D e = Some cs \<longrightarrow> length cs = 6) \<and>
     (\<forall>e. e \<notin> set EMPLOYEES \<longrightarrow> D e = None)"
proof -
  have l6: "length (BASE_COUNTS G) = 6"
    unfolding BASE_COUNTS_def by (rule length_make_dummy_funnel)
  from split_by_employees_ok [of G "BASE_COUNTS G" 11] obtain per_emp summed where
    r: "DATA_BY_EMP G = Inr (per_emp(''All'' \<mapsto> summed))"
       "good_entries (length (BASE_COUNTS G)) per_emp"
       "length summed = length (BASE_COUNTS G)"
       "\<forall>e. e \<notin> set emps \<longrightarrow> per_emp e = None"
    unfolding DATA_BY_EMP_def by blast
  let ?D = "per_emp(''All'' \<mapsto> summed)"
  have a: "?D ''All'' = Some summed" by simp
  have b: "length summed = 6" using r(3) l6 by simp
  have c: "\<forall>e cs. ?D e = Some cs \<longrightarrow> length cs = 6"
    using r(2) b l6 unfolding good_entries_def by (simp split: if_splits)
  have d: "\<forall>e. e \<notin> set EMPLOYEES \<longrightarrow> ?D e = None"
    using r(4) unfolding EMPLOYEES_emps by simp
  from r(1) a b c d show ?thesis by blast
qed

lemma get_counts_ok:
  assumes "D ''All'' = Some a" "length a = 6" "\<forall>e cs. D e = Some cs \<longrightarrow> length cs = 6"
  shows "\<exists>counts. get_counts D e = Inr counts \<and> length counts = 6 \<and>
           (D e = None \<longrightarrow> counts = a)"
proof (cases "D e")
  case None
  then show ?thesis using assms(1,2) by (simp add: get_counts_def)
next
  case (Some cs)
  then have "length cs = 6" using assms(3) by blast
  with Some show ?thesis using assms(1) by (simp add: get_counts_def)
qed

lemma get_meta_cases:
  "\<exists>t c x. get_meta k = Inr (t, c, x) \<and>
     c \<in> set [''impressions'', ''ctr'', ''click_to_lead'', ''lead_to_mql'', ''mql_to_sql'',
               ''sql_to_won'']"
  by (simp add: get_meta_def meta_def)

lemma get_meta_unknown: "k \<notin> set KPI_IDS \<Longrightarrow> get_meta k = get_meta ''ctr''"
  by (simp add: get_meta_def meta_def KPI_IDS_def)

lemma get_meta_ctr: "get_meta ''ctr'' = Inr (''CTR'', ''ctr'', ''Clicks / Impressions (%).'')"
  by (simp add: get_meta_def meta_def)

lemma get_meta_impressions:
  "get_meta ''impressions'' =
     Inr (''Impressions'', ''impressions'', ''Total de impresiones por mes.'')"
  by (simp add: get_meta_def meta_def)

lemma column_format_all:
  "\<forall>c \<in> set [''impressions'', ''ctr'', ''click_to_lead'', ''lead_to_mql'',
                  ''mql_to_sql'', ''sql_to_won''].
     \<exists>v s. column c r = Inr v \<and> format_cell c v = Inr s"
  by (simp add: column_def format_cell_def cell_int_def)

lemma column_format_ok:
  assumes "c \<in> set [''impressions'', ''ctr'', ''click_to_lead'', ''lead_to_mql'',
                      ''mql_to_sql'', ''sql_to_won'']"
  shows "\<exists>v s. column c r = Inr v \<and> format_cell c v = Inr s"
  using column_format_all [of r] assms by blast

lemma collect_ok:
  "(\<forall>x \<in> set xs. \<exists>y. f x = Inr y \<and> P x y) \<Longrightarrow>
   \<exists>ys. collect f xs = Inr ys \<and> list_all2 P xs ys"
proof (induction xs)
  case Nil
  show ?case by simp
next
  case (Cons x xs)
  from Cons.prems obtain y where y: "f x = Inr y" "P x y" by auto
  from Cons.prems have "\<forall>x \<in> set xs. \<exists>y. f x = Inr y \<and> P x y" by simp
  from Cons.IH [OF this] obtain ys where ys: "collect f xs = Inr ys" "list_all2 P xs ys"
    by blast
  have "collect f (x # xs) = Inr (y # ys)" using y(1) ys(1) by simp
  moreover have "list_all2 P (x # xs) (y # ys)" using y(2) ys(2) by simp
  ultimately show ?case by blast
qed

lemma list_all2_map_fst:
  "list_all2 (\<lambda>r y. fst y = g r) xs ys \<Longrightarrow> map fst ys = map g xs"
  by (induction xs ys rule: list_all2_induct) simp_all

lemma details_of_ok:
  assumes "get_meta k = Inr (t, c, x)"
    and "c \<in> set [''impressions'', ''ctr'', ''click_to_lead'', ''lead_to_mql'',
                    ''mql_to_sql'', ''sql_to_won'']"
  shows "\<exists>fig body. details_of df k e =
           Inr \<lparr>det_fig = fig,
                det_txt = ''Empleado: '' @ e @ '' '' @ middot @ '' '' @ x,
                det_head = (''Mes'', t),
                det_body = body\<rparr> \<and>
           map fst body = map row_month df \<and> trend_x fig = map row_month df"
proof -
  have "\<forall>r \<in> set df. \<exists>v. column c r = Inr v \<and> True"
    using column_format_ok [OF assms(2)] by blast
  from collect_ok [OF this] obtain ys where ys: "collect (column c) df = Inr ys" by blast
  define title where "title = t @ '' '' @ middot @ '' '' @ [CHR 0xC3, CHR 0x9A] @ ''ltimos 3 meses''"
  define fig where "fig = \<lparr>trend_title = title, trend_x = map row_month df, trend_y = ys\<rparr>"
  have fig: "build_kpi_trend df c title = Inr fig"
    unfolding build_kpi_trend_def fig_def using ys by simp
  define f where "f = (\<lambda>r. case column c r of
                           Inl err \<Rightarrow> Inl err
                         | Inr v \<Rightarrow>
                             (case format_cell c v of
                                Inl err \<Rightarrow> Inl err
                              | Inr s \<Rightarrow> Inr (row_month r, s)))"
  have "\<forall>r \<in> set df. \<exists>y. f r = Inr y \<and> fst y = row_month r"
  proof
    fix r assume "r \<in> set df"
    from column_format_ok [OF assms(2), of r] obtain v s where
      "column c r = Inr v" "format_cell c v = Inr s" by blast
    then have "f r = Inr (row_month r, s)" unfolding f_def by simp
    then show "\<exists>y. f r = Inr y \<and> fst y = row_month r" by simp
  qed
  from collect_ok [OF this] obtain body where
    body: "collect f df = Inr body" "list_all2 (\<lambda>r y. fst y = row_month r) df body" by blast
  have m: "map fst body = map row_month df" using body(2) by (rule list_all2_map_fst)
  have "details_of df k e =
           Inr \<lparr>det_fig = fig,
                det_txt = ''Empleado: '' @ e @ '' '' @ middot @ '' '' @ x,
                det_head = (''Mes'', t),
                det_body = body\<rparr>"
    unfolding details_of_def
    using assms(1) fig [unfolded title_def] body(1) [unfolded f_def] by simp
  moreover have "trend_x fig = map row_month df" unfolding fig_def by simp
  ultimately show ?thesis using m by blast
qed

lemma map_row_month_rows:
  "length ms = length ds \<Longrightarrow>
   map row_month (map (\<lambda>(m, d). row_of m (vals d)) (zip ms ds)) = ms"
  by (induction ms ds rule: list_induct2) (simp_all add: row_of_def)

lemma length_month_drifts [simp]: "length (month_drifts G seed) = 3"
  by (simp add: month_drifts_def)

lemma length_months_of [simp]: "length (months_of now) = 3"
  by (simp add: months_of_def)

lemma render_details_ok:
  "\<exists>D a counts df.
     DATA_BY_EMP G = Inr D \<and> D ''All'' = Some a \<and> get_counts D e = Inr counts \<and>
     (e \<notin> set EMPLOYEES \<longrightarrow> counts = a) \<and>
     make_3_months_kpis G now counts (history_seed h e) = Inr df \<and>
     map row_month df = months_of now \<and>
     (\<forall>k. render_details G now h k e = details_of df k e)"
proof -
  from DATA_BY_EMP_ok [of G] obtain D a where
    D: "DATA_BY_EMP G = Inr D" "D ''All'' = Some a" "length a = 6"
       "\<forall>e cs. D e = Some cs \<longrightarrow> length cs = 6"
       "\<forall>e. e \<notin> set EMPLOYEES \<longrightarrow> D e = None"
    by (elim exE conjE) (rule that, assumption+)
  from get_counts_ok [OF D(2,3,4), of e] obtain counts where
    c: "get_counts D e = Inr counts" "length counts = 6" "D e = None \<longrightarrow> counts = a"
    by (elim exE conjE) (rule that, assumption+)
  define df where "df = map (\<lambda>(m, d). row_of m (month_vals counts d))
                  (zip (months_of now) (month_drifts G (history_seed h e)))"
  have df: "make_3_months_kpis G now counts (history_seed h e) = Inr df"
    unfolding df_def by (rule make_3_months_kpis_eq [OF c(2)])
  have ms: "map row_month df = months_of now"
    unfolding df_def by (rule map_row_month_rows) simp
  have "\<forall>k. render_details G now h k e = details_of df k e"
    unfolding render_details_def using D(1) c(1) df by simp
  moreover have "e \<notin> set EMPLOYEES \<longrightarrow> counts = a"
  proof
    assume ne: "e \<notin> set EMPLOYEES"
    from D(5) have "e \<notin> set EMPLOYEES \<longrightarrow> D e = None" ..
    from this ne have "D e = None" ..
    from c(3) this show "counts = a" ..
  qed
  ultimately show ?thesis using D(1,2) c(1) df ms by (intro exI conjI)
qed

lemma update_overview_ok:
  "\<exists>D a counts ov.
     DATA_BY_EMP G = Inr D \<and> D ''All'' = Some a \<and> get_counts D e = Inr counts \<and>
     (e \<notin> set EMPLOYEES \<longrightarrow> counts = a) \<and>
     update_overview G e = Inr ov \<and> overview_of counts = Inr ov"
proof -
  from DATA_BY_EMP_ok [of G] obtain D a where
    D: "DATA_BY_EMP G = Inr D" "D ''All'' = Some a" "length a = 6"
       "\<forall>e cs. D e = Some cs \<longrightarrow> length cs = 6"
       "\<forall>e. e \<notin> set EMPLOYEES \<longrightarrow> D e = None"
    by (elim exE conjE) (rule that, assumption+)
  from get_counts_ok [OF D(2,3,4), of e] obtain counts where
    c: "get_counts D e = Inr counts" "length counts = 6" "D e = None \<longrightarrow> counts = a"
    by (elim exE conjE) (rule that, assumption+)
  from overview_of_total [OF c(2)] obtain ov where ov: "overview_of counts = Inr ov" by blast
  have "update_overview G e = Inr ov"
    unfolding update_overview_def using D(1) c(1) ov by simp
  moreover have "e \<notin> set EMPLOYEES \<longrightarrow> counts = a"
  proof
    assume ne: "e \<notin> set EMPLOYEES"
    from D(5) have "e \<notin> set EMPLOYEES \<longrightarrow> D e = None" ..
    from this ne have "D e = None" ..
    from c(3) this show "counts = a" ..
  qed
  ultimately show ?thesis using D(1,2) c(1) ov by (intro exI conjI)
qed

lemma month_index_sub_months: "month_index (sub_months d k) = month_index d - int k"
proof -
  define t where "t = month_index d - int k"
  have "month_index (sub_months d k) = (t div 12) * 12 + int (nat (t mod 12) + 1) - 1"
    unfolding sub_months_def Let_def t_def [symmetric] by (simp add: month_index_def)
  also have "\<dots> = (t div 12) * 12 + t mod 12" by simp
  also have "\<dots> = t" by simp
  finally show ?thesis unfolding t_def .
qed

lemma kpi_click_all:
  "\<forall>k \<in> set KPI_IDS. kpi_click [prop_id_of k] = Inr (k, ''tab-details'')"
  by code_simp

lemma ctr_is_kpi: "''ctr'' \<in> set KPI_IDS"
  by (simp add: KPI_IDS_def)

lemma render_details_total:
  "\<exists>out t c x. render_details G now h k e = Inr out \<and> get_meta k = Inr (t, c, x) \<and>
     det_head out = (''Mes'', t) \<and>
     det_txt out = ''Empleado: '' @ e @ '' '' @ middot @ '' '' @ x \<and>
     map fst (det_body out) = months_of now \<and> length (det_body out) = 3"
proof -
  from render_details_ok [of G e now h] obtain df where
    df: "map row_month df = months_of now"
        "\<forall>k. render_details G now h k e = details_of df k e"
    by (elim exE conjE) (rule that, assumption+)
  from get_meta_cases [of k] obtain t c x where
    m: "get_meta k = Inr (t, c, x)"
       "c \<in> set [''impressions'', ''ctr'', ''click_to_lead'', ''lead_to_mql'', ''mql_to_sql'',
               ''sql_to_won'']"
    by (elim exE conjE) (rule that, assumption+)
  from details_of_ok [OF m, of df e] obtain fig body where
    d: "details_of df k e =
           Inr \<lparr>det_fig = fig,
                det_txt = ''Empleado: '' @ e @ '' '' @ middot @ '' '' @ x,
                det_head = (''Mes'', t),
                det_body = body\<rparr>"
       "map fst body = map row_month df"
    by (elim exE conjE) (rule that, assumption+)
  define out where "out = \<lparr>det_fig = fig,
                det_txt = ''Empleado: '' @ e @ '' '' @ middot @ '' '' @ x,
                det_head = (''Mes'', t),
                det_body = body\<rparr>"
  have r: "render_details G now h k e = Inr out"
    unfolding out_def using df(2) d(1) by simp
  have b: "map fst (det_body out) = months_of now"
    unfolding out_def using d(2) df(1) by simp
  have "length (map fst (det_body out)) = 3" unfolding b by simp
  then have l: "length (det_body out) = 3" by simp
  have h: "det_head out = (''Mes'', t)" unfolding out_def by simp
  have x: "det_txt out = ''Empleado: '' @ e @ '' '' @ middot @ '' '' @ x"
    unfolding out_def by simp
  from r m(1) h x b l show ?thesis by (intro exI conjI)
qed

lemma dispatch_click:
  "kpi_click [prop_id_of k] = Inr (k, ''tab-details'') \<Longrightarrow>
   dispatch st (ClickKpi k) = Inr (st\<lparr>st_selected_kpi := k, st_tabs := ''tab-details''\<rparr>)"
  by (simp add: dispatch_def)

lemma bogus_unknown: "''bogus'' \<notin> set KPI_IDS"
  by (simp add: KPI_IDS_def)

lemma Nobody_unknown: "''Nobody'' \<notin> set EMPLOYEES"
  by (simp add: EMPLOYEES_def Sofia_def)

lemma strftime_sub_months:
  "month_index d = month_index d' \<Longrightarrow>
   strftime_Ym (sub_months d k) = strftime_Ym (sub_months d' k)"
  by (simp add: strftime_Ym_def sub_months_def Let_def)

lemma month_index_replace_day:
  "month_index (replace_day d n) = month_index d"
  by (simp add: month_index_def replace_day_def)

lemma months_of_same_month:
  assumes "dt_year now1 = dt_year now2" "dt_month now1 = dt_month now2"
  shows "months_of now1 = months_of now2"
proof -
  have e: "month_index (replace_day now1 1) = month_index (replace_day now2 1)"
    unfolding month_index_replace_day using assms by (simp add: month_index_def)
  show ?thesis
    unfolding months_of_def
    by (simp only: strftime_sub_months [OF e])
qed

lemma row_of_erase_month:
  "row_of m vals\<lparr>row_month := []\<rparr> = row_of [] vals"
  by (simp add: row_of_def)

lemma rows_erase_month:
  "length ms = length ds \<Longrightarrow> length ms' = length ds \<Longrightarrow>
   map (\<lambda>r. r\<lparr>row_month := []\<rparr>) (map (\<lambda>(m, d). row_of m (vals d)) (zip ms ds))
   = map (\<lambda>r. r\<lparr>row_month := []\<rparr>) (map (\<lambda>(m, d). row_of m (vals d)) (zip ms' ds))"
proof -
  assume a: "length ms = length ds" and b: "length ms' = length ds"
  have "\<And>ms. length ms = length ds \<Longrightarrow>
     map (\<lambda>r. r\<lparr>row_month := []\<rparr>) (map (\<lambda>(m, d). row_of m (vals d)) (zip ms ds))
     = map (\<lambda>d. row_of [] (vals d)) ds"
  proof -
    fix ms :: "string list" assume "length ms = length ds"
    then show "map (\<lambda>r. r\<lparr>row_month := []\<rparr>) (map (\<lambda>(m, d). row_of m (vals d)) (zip ms ds))
     = map (\<lambda>d. row_of [] (vals d)) ds"
      by (induction ms ds rule: list_induct2) (simp_all add: row_of_erase_month)
  qed
  from this [OF a] this [OF b] show ?thesis by simp
qed

lemma toy_months: "months_of toy_now = [''2025-11'', ''2025-12'', ''2026-01'']"
  by code_simp

lemma toy_months_next:
  "months_of (toy_now\<lparr>dt_month := 2\<rparr>) = [''2025-12'', ''2026-01'', ''2026-02'']"
  by code_simp

lemma make_3_months_kpis_same_month:
  assumes "dt_year now1 = dt_year now2" "dt_month now1 = dt_month now2"
  shows "make_3_months_kpis G now1 counts seed = make_3_months_kpis G now2 counts seed"
  unfolding make_3_months_kpis_collect months_of_same_month [OF assms] ..

lemma make_3_months_kpis_rows:
  assumes "length counts = 6"
  shows "\<exists>rows. make_3_months_kpis G now counts seed = Inr rows \<and>
           rows = map (\<lambda>(m, d). row_of m (month_vals counts d))
                    (zip (months_of now) (month_drifts G seed)) \<and>
           map row_month rows = months_of now"
proof -
  define rows where "rows = map (\<lambda>(m, d). row_of m (month_vals counts d))
                    (zip (months_of now) (month_drifts G seed))"
  have "make_3_months_kpis G now counts seed = Inr rows"
    unfolding rows_def by (rule make_3_months_kpis_eq [OF assms])
  moreover have "map row_month rows = months_of now"
    unfolding rows_def by (rule map_row_month_rows) simp
  ultimately show ?thesis using rows_def by (intro exI conjI)
qed

lemma toy_months_differ: "months_of toy_now \<noteq> months_of (toy_now\<lparr>dt_month := 2\<rparr>)"
  unfolding toy_months toy_months_next by simp

lemma a05_nonneg: "0 \<le> fl (5/100)"
  by (rule fl_nonneg) simp

lemma clip_bounds: "lo \<le> hi \<Longrightarrow> lo \<le> clip z lo hi \<and> clip z lo hi \<le> hi"
  by (simp add: clip_def min_def max_def)

lemma fadd_mono: "b \<le> c \<Longrightarrow> fadd a b \<le> fadd a c"
  unfolding fadd_def by (rule fl_mono) simp

lemma drift_of_bounds:
  "fadd (drift_base idx) (- fl (5/100)) \<le> drift_of idx z \<and>
   drift_of idx z \<le> fadd (drift_base idx) (fl (5/100))"
proof -
  have "- fl (5/100) \<le> fl (5/100)" using a05_nonneg by linarith
  from clip_bounds [OF this, of z]
  show ?thesis unfolding drift_of_def by (simp add: fadd_mono)
qed

lemma drift_base_0: "drift_base 0 = fl (90/100)" by code_simp

lemma drift_base_1: "drift_base 1 = fl (96/100)" by code_simp

lemma drift_base_2: "drift_base 2 = fl (102/100)" by code_simp

lemma drift_base_incr: "drift_base 0 < drift_base 1 \<and> drift_base 1 < drift_base 2"
  by code_simp

lemma drift_real_bounds_0:
  "85/100 - 1/10^15 \<le> fadd (drift_base 0) (- fl (5/100)) \<and>
   fadd (drift_base 0) (fl (5/100)) \<le> 95/100 + 1/10^15"
  by code_simp

lemma drift_real_bounds_1:
  "91/100 - 1/10^15 \<le> fadd (drift_base 1) (- fl (5/100)) \<and>
   fadd (drift_base 1) (fl (5/100)) \<le> 101/100 + 1/10^15"
  by code_simp

lemma drift_real_bounds_2:
  "97/100 - 1/10^15 \<le> fadd (drift_base 2) (- fl (5/100)) \<and>
   fadd (drift_base 2) (fl (5/100)) \<le> 107/100 + 1/10^15"
  by code_simp

section \<open>The claims\<close>

text \<open>
  C1. The list \<^verbatim>\<open>make_dummy_funnel\<close> returns, the entry of each named employee in the
  dictionary \<^verbatim>\<open>split_by_employees\<close> returns, and the six stage counts of each of the
  three rows \<^verbatim>\<open>make_3_months_kpis\<close> returns on six counts are non-increasing: the count
  at index \<open>i + 1\<close> is at most the count at index \<open>i\<close>, for every seed and every
  generator.
\<close>

theorem funnel_counts_non_increasing:
  "(\<forall>i<5. make_dummy_funnel G seed ! (i + 1) \<le> make_dummy_funnel G seed ! i) \<and>
   (\<forall>e \<in> set emps. \<exists>D cs.
      split_by_employees G base seed' = Inr D \<and> D e = Some cs \<and> length cs = length base \<and>
      (\<forall>i. i + 1 < length base \<longrightarrow> cs ! (i + 1) \<le> cs ! i)) \<and>
   (length counts = 6 \<longrightarrow>
      (\<exists>rows. make_3_months_kpis G now counts seed'' = Inr rows \<and> length rows = 3 \<and>
         (\<forall>r \<in> set rows. \<forall>i<5. stage_counts r ! (i + 1) \<le> stage_counts r ! i)))"
proof (intro conjI)
  have "non_increasing (make_dummy_funnel G seed)"
    by (rule make_dummy_funnel_non_increasing)
  then show "\<forall>i<5. make_dummy_funnel G seed ! (i + 1) \<le> make_dummy_funnel G seed ! i"
    unfolding non_increasing_def by (simp add: length_make_dummy_funnel)
next
  from split_by_employees_ok [of G base seed'] obtain per_emp summed where
    r: "split_by_employees G base seed' = Inr (per_emp(''All'' \<mapsto> summed))"
       "good_entries (length base) per_emp"
       "\<forall>e \<in> set emps. per_emp e \<noteq> None"
    by blast
  show "\<forall>e \<in> set emps. \<exists>D cs.
      split_by_employees G base seed' = Inr D \<and> D e = Some cs \<and> length cs = length base \<and>
      (\<forall>i. i + 1 < length base \<longrightarrow> cs ! (i + 1) \<le> cs ! i)"
  proof
    fix e assume e: "e \<in> set emps"
    with r(3) obtain cs where cs: "per_emp e = Some cs" by auto
    from e All_not_emp have "e \<noteq> ''All''" by blast
    with cs have "(per_emp(''All'' \<mapsto> summed)) e = Some cs" by simp
    moreover from r(2) cs have "length cs = length base" "non_increasing cs"
      unfolding good_entries_def by blast+
    ultimately show "\<exists>D cs.
      split_by_employees G base seed' = Inr D \<and> D e = Some cs \<and> length cs = length base \<and>
      (\<forall>i. i + 1 < length base \<longrightarrow> cs ! (i + 1) \<le> cs ! i)"
      using r(1) unfolding non_increasing_def by auto
  qed
next
  show "length counts = 6 \<longrightarrow>
      (\<exists>rows. make_3_months_kpis G now counts seed'' = Inr rows \<and> length rows = 3 \<and>
         (\<forall>r \<in> set rows. \<forall>i<5. stage_counts r ! (i + 1) \<le> stage_counts r ! i))"
  proof
    assume len: "length counts = 6"
    define rows where "rows = map (\<lambda>(m, d). row_of m (month_vals counts d))
                  (zip (months_of now) (month_drifts G seed''))"
    have eq: "make_3_months_kpis G now counts seed'' = Inr rows"
      unfolding rows_def by (rule make_3_months_kpis_eq [OF len])
    have l3: "length rows = 3"
      unfolding rows_def by (simp add: months_of_def month_drifts_def)
    have "\<forall>r \<in> set rows. \<forall>i<5. stage_counts r ! (i + 1) \<le> stage_counts r ! i"
    proof (intro ballI allI impI)
      fix r i assume "r \<in> set rows" and i: "i < (5::nat)"
      then obtain m d where r: "r = row_of m (month_vals counts d)"
        unfolding rows_def by auto
      have "stage_counts r = month_vals counts d"
        unfolding r by (rule stage_counts_row_of) (simp add: len)
      moreover have "non_increasing (month_vals counts d)"
        by (rule month_vals_non_increasing)
      ultimately show "stage_counts r ! (i + 1) \<le> stage_counts r ! i"
        unfolding non_increasing_def using i len by simp
    qed
    with eq l3 show "\<exists>rows. make_3_months_kpis G now counts seed'' = Inr rows \<and> length rows = 3 \<and>
         (\<forall>r \<in> set rows. \<forall>i<5. stage_counts r ! (i + 1) \<le> stage_counts r ! i)"
      by blast
  qed
qed

theorem funnel_counts_non_increasing_witness:
  "make_dummy_funnel toy_generator 11 ! (0 + 1) \<le> make_dummy_funnel toy_generator 11 ! 0 \<and>
   ''Mateo'' \<in> set emps \<and>
   (\<exists>D cs. split_by_employees toy_generator [900, 300, 100] 11 = Inr D \<and>
      D ''Mateo'' = Some cs \<and> cs ! (0 + 1) \<le> cs ! 0) \<and>
   length [100, 50, 20, 10, 5, 1::int] = 6 \<and>
   (\<exists>rows. make_3_months_kpis toy_generator toy_now [100, 50, 20, 10, 5, 1] 77 = Inr rows \<and>
      length rows = 3 \<and>
      stage_counts (rows ! 0) ! (0 + 1) \<le> stage_counts (rows ! 0) ! 0)"
proof -
  note t = funnel_counts_non_increasing [of toy_generator 11 "[900, 300, 100]" 11
      "[100, 50, 20, 10, 5, 1]" toy_now 77]
  have m: "''Mateo'' \<in> set emps" by (simp add: emps_def)
  have l: "length [100, 50, 20, 10, 5, 1::int] = 6" by simp
  from t have "make_dummy_funnel toy_generator 11 ! (0 + 1) \<le> make_dummy_funnel toy_generator 11 ! 0"
    by simp
  moreover from t m obtain D cs where
    "split_by_employees toy_generator [900, 300, 100] 11 = Inr D" "D ''Mateo'' = Some cs"
    "\<forall>i. i + 1 < length [900, 300, 100::int] \<longrightarrow> cs ! (i + 1) \<le> cs ! i"
    by blast
  then have "\<exists>D cs. split_by_employees toy_generator [900, 300, 100] 11 = Inr D \<and>
      D ''Mateo'' = Some cs \<and> cs ! (0 + 1) \<le> cs ! 0"
    by auto
  moreover from t l obtain rows where
    rows: "make_3_months_kpis toy_generator toy_now [100, 50, 20, 10, 5, 1] 77 = Inr rows"
      "length rows = 3"
      "\<forall>r \<in> set rows. \<forall>i<5. stage_counts r ! (i + 1) \<le> stage_counts r ! i"
    by blast
  then have "rows ! 0 \<in> set rows" by simp
  with rows(3) have "stage_counts (rows ! 0) ! (0 + 1) \<le> stage_counts (rows ! 0) ! 0"
    by simp
  with rows(1,2) have "\<exists>rows. make_3_months_kpis toy_generator toy_now [100, 50, 20, 10, 5, 1] 77 = Inr rows \<and>
      length rows = 3 \<and>
      stage_counts (rows ! 0) ! (0 + 1) \<le> stage_counts (rows ! 0) ! 0"
    by blast
  ultimately show ?thesis using m l by blast
qed

text \<open>
  C2. For every base list of counts and every seed, \<^verbatim>\<open>split_by_employees\<close> returns a
  dictionary whose \<^verbatim>\<open>"All"\<close> entry is, at every stage index, the exact sum of the entries
  of the four named employees as they are stored in the dictionary, that is after
  their clamp; it is not computed from the base counts.
\<close>

theorem all_is_sum_of_employees:
  "\<exists>D a s m v j.
     split_by_employees G base seed = Inr D \<and>
     D ''All'' = Some a \<and> D Sofia = Some s \<and> D ''Mateo'' = Some m \<and>
     D ''Valentina'' = Some v \<and> D ''Juan'' = Some j \<and>
     length a = length base \<and> length s = length base \<and> length m = length base \<and>
     length v = length base \<and> length j = length base \<and>
     (\<forall>i < length base. a ! i = s ! i + m ! i + v ! i + j ! i)"
proof -
  from split_by_employees_ok [of G base seed] obtain per_emp summed where
    r: "split_by_employees G base seed = Inr (per_emp(''All'' \<mapsto> summed))"
       "good_entries (length base) per_emp"
       "\<forall>e \<in> set emps. per_emp e \<noteq> None"
       "length summed = length base"
       "\<forall>i < length base. summed ! i = (\<Sum>e \<leftarrow> emps. the (per_emp e) ! i)"
    by blast
  from r(3) obtain s m v j where
    e: "per_emp Sofia = Some s" "per_emp ''Mateo'' = Some m"
       "per_emp ''Valentina'' = Some v" "per_emp ''Juan'' = Some j"
    by (auto simp: emps_def)
  let ?D = "per_emp(''All'' \<mapsto> summed)"
  have "?D ''All'' = Some summed" by simp
  moreover have "?D Sofia = Some s" "?D ''Mateo'' = Some m"
    "?D ''Valentina'' = Some v" "?D ''Juan'' = Some j"
    using e by (simp_all add: Sofia_def)
  moreover have "length s = length base" "length m = length base"
    "length v = length base" "length j = length base"
    using r(2) e unfolding good_entries_def by blast+
  moreover have "\<forall>i < length base. summed ! i = s ! i + m ! i + v ! i + j ! i"
    using r(5) e by (simp add: emps_def)
  ultimately show ?thesis using r(1,4) by blast
qed

theorem all_is_sum_of_employees_witness:
  "(1::nat) < length [900, 300, 100::int] \<and>
   (\<exists>D a s m v j.
      split_by_employees toy_generator [900, 300, 100] 11 = Inr D \<and>
      D ''All'' = Some a \<and> D Sofia = Some s \<and> D ''Mateo'' = Some m \<and>
      D ''Valentina'' = Some v \<and> D ''Juan'' = Some j \<and>
      a ! 1 = s ! 1 + m ! 1 + v ! 1 + j ! 1)"
proof -
  from all_is_sum_of_employees [of toy_generator "[900, 300, 100]" 11]
  obtain D a s m v j where
    r: "split_by_employees toy_generator [900, 300, 100] 11 = Inr D"
       "D ''All'' = Some a" "D Sofia = Some s" "D ''Mateo'' = Some m"
       "D ''Valentina'' = Some v" "D ''Juan'' = Some j"
       "\<forall>i < length [900, 300, 100::int]. a ! i = s ! i + m ! i + v ! i + j ! i"
    by blast
  have one: "(1::nat) < length [900, 300, 100::int]" by simp
  with r(7) have "a ! 1 = s ! 1 + m ! 1 + v ! 1 + j ! 1" by blast
  with one r(1-6) show ?thesis by blast
qed

text \<open>
  C3. The conversion rate is the quotient of the two counts times 100, in binary64
  arithmetic, when the denominator is not zero, and exactly 0 when it is zero, whatever
  the numerator. \<^verbatim>\<open>pct_prev\<close> divides Python integers: for counts below \<open>2 ^ 1000\<close> in
  magnitude the quotient and its product by 100 stay within the range of binary64, so
  that it never raises (no \<^verbatim>\<open>ZeroDivisionError\<close>, no \<^verbatim>\<open>OverflowError\<close>) and returns a
  finite number. \<^verbatim>\<open>safe_pct\<close>, on numpy integers, always returns a finite number, never
  NaN or an infinity.
\<close>

theorem conversion_rate_safe:
  "(prev \<noteq> 0 \<and> \<bar>cur\<bar> < 2 ^ 1000 \<and> \<bar>prev\<bar> < 2 ^ 1000 \<longrightarrow>
      pct_prev cur prev = Inr (fmul (fl (of_int cur / of_int prev)) (fl 100)) \<and>
      \<bar>fl (of_int cur / of_int prev)\<bar> \<le> 2 ^ 1000 \<and>
      \<bar>fmul (fl (of_int cur / of_int prev)) (fl 100)\<bar> \<le> 2 ^ 1007) \<and>
   pct_prev cur 0 = Inr 0 \<and>
   (\<bar>cur\<bar> < 2 ^ 1000 \<and> \<bar>prev\<bar> < 2 ^ 1000 \<longrightarrow> (\<exists>p. pct_prev cur prev = Inr p)) \<and>
   (den \<noteq> 0 \<longrightarrow>
      safe_pct num den = Finite (fmul (fdiv (float_of_int num) (float_of_int den)) (fl 100))) \<and>
   safe_pct num 0 = Finite 0 \<and>
   (\<exists>p. safe_pct num den = Finite p)"
proof (intro conjI impI)
  assume h: "prev \<noteq> 0 \<and> \<bar>cur\<bar> < 2 ^ 1000 \<and> \<bar>prev\<bar> < 2 ^ 1000"
  then show "pct_prev cur prev = Inr (fmul (fl (of_int cur / of_int prev)) (fl 100))"
    by (simp add: pct_prev_def int_truediv_def)
  from h have p: "prev \<noteq> 0" and c: "\<bar>cur\<bar> < 2 ^ 1000" by simp_all
  show "\<bar>fl (of_int cur / of_int prev)\<bar> \<le> 2 ^ 1000"
    by (rule quotient_in_range(1) [OF p c])
  show "\<bar>fmul (fl (of_int cur / of_int prev)) (fl 100)\<bar> \<le> 2 ^ 1007"
    by (rule quotient_in_range(2) [OF p c])
next
  show "pct_prev cur 0 = Inr 0" by (simp add: pct_prev_def)
next
  show "\<exists>p. pct_prev cur prev = Inr p" by (simp add: pct_prev_def int_truediv_def)
next
  assume "den \<noteq> 0"
  then show "safe_pct num den =
      Finite (fmul (fdiv (float_of_int num) (float_of_int den)) (fl 100))"
    by (simp add: safe_pct_def np_true_divide_def np_multiply_def)
next
  show "safe_pct num 0 = Finite 0" by (simp add: safe_pct_def)
next
  show "\<exists>p. safe_pct num den = Finite p"
    by (simp add: safe_pct_def np_true_divide_def np_multiply_def)
qed

theorem conversion_rate_safe_witness:
  "(4::int) \<noteq> 0 \<and> \<bar>1::int\<bar> < 2 ^ 1000 \<and> \<bar>4::int\<bar> < 2 ^ 1000 \<and>
   pct_prev 1 4 = Inr 25 \<and> pct_prev 1 0 = Inr 0 \<and>
   safe_pct 1 4 = Finite 25 \<and> safe_pct 1 0 = Finite 0"
  using conversion_rate_safe [of 4 1 4 1] fl_quarter_pct np_quarter_pct by simp

text \<open>
  C6. The selection of the best and the worst KPI in \<^verbatim>\<open>update_overview\<close>: on a list of
  rates that is not empty, the best is an item of the greatest rate and the first of them
  in the order of the list (every item before it has a smaller rate, none after it has a
  greater one), the worst is an item of the least rate and the first of them.
  \<^verbatim>\<open>update_overview\<close> applies the selection to the five rates in the order CTR,
  Click-Lead, Lead-MQL, MQL-SQL, SQL-Won, and prints the two names in its insights. On the
  rates 50, 50, 10, 10, 10 the best is CTR and the worst is Lead-MQL.
\<close>

theorem rank_kpis_first_extreme:
  "(rates \<noteq> [] \<longrightarrow>
      (\<exists>w b. rank_kpis rates = Inr (w, b) \<and>
         (\<exists>ys zs. rates = ys @ b # zs \<and> (\<forall>y \<in> set ys. snd y < snd b) \<and>
            (\<forall>z \<in> set zs. snd z \<le> snd b)) \<and>
         (\<exists>ys zs. rates = ys @ w # zs \<and> (\<forall>y \<in> set ys. snd w < snd y) \<and>
            (\<forall>z \<in> set zs. snd w \<le> snd z)))) \<and>
   (overview_of [imp, clk, lead, mql, sql, won] = Inr ov \<longrightarrow>
      (\<exists>p1 p2 p3 p4 p5 w b.
         pct_prev clk imp = Inr p1 \<and> pct_prev lead clk = Inr p2 \<and>
         pct_prev mql lead = Inr p3 \<and> pct_prev sql mql = Inr p4 \<and>
         pct_prev won sql = Inr p5 \<and>
         rank_kpis [(''CTR'', p1), (''Click '' @ arrow @ '' Lead'', p2),
                    (''Lead '' @ arrow @ '' MQL'', p3), (''MQL '' @ arrow @ '' SQL'', p4),
                    (''SQL '' @ arrow @ '' Won'', p5)] = Inr (w, b) \<and>
         ov_insights ov ! 1 = bullet @ '' Mayor ca'' @ [CHR 0xC3, CHR 0xAD] @ ''da: ''
                                @ fst w @ '' '' @ middot @ '' '' @ pct2 (snd w) \<and>
         ov_insights ov ! 2 = bullet @ '' Mejor etapa: ''
                                @ fst b @ '' '' @ middot @ '' '' @ pct2 (snd b))) \<and>
   rank_kpis spec_rates = Inr ((''Lead '' @ arrow @ '' MQL'', 10), (''CTR'', 50))"
  using rank_kpis_ok [of rates] overview_of_rank [of imp clk lead mql sql won ov]
    spec_rates_rank
  by blast

theorem rank_kpis_first_extreme_witness:
  "spec_rates \<noteq> [] \<and>
   (\<exists>w b. rank_kpis spec_rates = Inr (w, b) \<and> fst b = ''CTR'' \<and>
      fst w = ''Lead '' @ arrow @ '' MQL'') \<and>
   (\<exists>ov. overview_of [40000, 20000, 10000, 1000, 100, 10] = Inr ov \<and>
      (\<exists>w b. ov_insights ov ! 1 = bullet @ '' Mayor ca'' @ [CHR 0xC3, CHR 0xAD] @ ''da: ''
                                @ fst w @ '' '' @ middot @ '' '' @ pct2 (snd w) \<and>
             ov_insights ov ! 2 = bullet @ '' Mejor etapa: ''
                                @ fst b @ '' '' @ middot @ '' '' @ pct2 (snd b)))"
proof -
  have ne: "spec_rates \<noteq> []" by (simp add: spec_rates_def)
  obtain ov where ov: "overview_of [40000, 20000, 10000, 1000, 100, 10] = Inr ov"
    using overview_of_total [of "[40000, 20000, 10000, 1000, 100, 10]"] by auto
  note t = rank_kpis_first_extreme [of spec_rates 40000 20000 10000 1000 100 10 ov]
  from t ne have "\<exists>w b. rank_kpis spec_rates = Inr (w, b) \<and> fst b = ''CTR'' \<and>
      fst w = ''Lead '' @ arrow @ '' MQL''"
    by simp
  moreover from t ov have "\<exists>w b. ov_insights ov ! 1 = bullet @ '' Mayor ca'' @ [CHR 0xC3, CHR 0xAD] @ ''da: ''
                                @ fst w @ '' '' @ middot @ '' '' @ pct2 (snd w) \<and>
             ov_insights ov ! 2 = bullet @ '' Mejor etapa: ''
                                @ fst b @ '' '' @ middot @ '' '' @ pct2 (snd b)"
    by blast
  ultimately show ?thesis using ne ov by blast
qed

text \<open>
  C9. \<^verbatim>\<open>fmt_int\<close> writes an integer of at least 1,000,000 as the float \<^verbatim>\<open>n / 1_000_000\<close>
  rounded to hundredths: the digits of the whole part, a point and exactly two digits,
  followed by \<^verbatim>\<open>M\<close>; an integer from 1,000 up to 999,999 as the float \<^verbatim>\<open>n / 1_000\<close>
  rounded to tenths, with exactly one digit after the point, followed by \<^verbatim>\<open>K\<close>; a
  smaller integer as its decimal string. This is stated for integers below \<open>2 ^ 1000\<close> in
  magnitude, for which the quotient is within the range of binary64. So \<^verbatim>\<open>fmt_int(999)\<close>
  is \<^verbatim>\<open>999\<close>, \<^verbatim>\<open>fmt_int(1500)\<close> is \<^verbatim>\<open>1.5K\<close> and \<^verbatim>\<open>fmt_int(2300000)\<close> is \<^verbatim>\<open>2.30M\<close>.
\<close>

theorem fmt_int_spec:
  "(1000000 \<le> n \<and> n < 2 ^ 1000 \<longrightarrow>
      fmt_int n = format_f 2 (fl (of_int n / 1000000)) @ ''M'' \<and>
      fmt_int n = str_nat (hundredths n div 10 ^ 2) @ ''.''
                    @ zfill 2 (str_nat (hundredths n mod 10 ^ 2)) @ ''M'' \<and>
      length (zfill 2 (str_nat (hundredths n mod 10 ^ 2))) = 2 \<and>
      (\<forall>c \<in> set (str_nat (hundredths n div 10 ^ 2)
                   @ zfill 2 (str_nat (hundredths n mod 10 ^ 2))). is_digit c)) \<and>
   (1000 \<le> n \<and> n < 1000000 \<longrightarrow>
      fmt_int n = format_f 1 (fl (of_int n / 1000)) @ ''K'' \<and>
      fmt_int n = str_nat (tenths n div 10 ^ 1) @ ''.''
                    @ zfill 1 (str_nat (tenths n mod 10 ^ 1)) @ ''K'' \<and>
      length (zfill 1 (str_nat (tenths n mod 10 ^ 1))) = 1 \<and>
      (\<forall>c \<in> set (str_nat (tenths n div 10 ^ 1)
                   @ zfill 1 (str_nat (tenths n mod 10 ^ 1))). is_digit c)) \<and>
   (- (2 ^ 1000) < n \<and> n < 1000 \<longrightarrow> fmt_int n = str_int n) \<and>
   fmt_int 999 = ''999'' \<and> fmt_int 1500 = ''1.5K'' \<and> fmt_int 2300000 = ''2.30M''"
proof (intro conjI impI)
  assume "1000000 \<le> n \<and> n < 2 ^ 1000"
  then have n: "1000000 \<le> n" ..
  then have "0 \<le> fl (of_int n / 1000000)" by (intro fl_nonneg) simp
  from format_f_nonneg [OF this, of 2]
  have f: "format_f 2 (fl (of_int n / 1000000)) = str_nat (hundredths n div 10 ^ 2) @ ''.''
                    @ zfill 2 (str_nat (hundredths n mod 10 ^ 2))"
    and l: "length (zfill 2 (str_nat (hundredths n mod 10 ^ 2))) = 2"
    and d: "\<forall>c \<in> set (str_nat (hundredths n div 10 ^ 2)
                   @ zfill 2 (str_nat (hundredths n mod 10 ^ 2))). is_digit c"
    unfolding hundredths_def by simp_all
  show m: "fmt_int n = format_f 2 (fl (of_int n / 1000000)) @ ''M''"
    using n by (simp add: fmt_int_def)
  show "fmt_int n = str_nat (hundredths n div 10 ^ 2) @ ''.''
                    @ zfill 2 (str_nat (hundredths n mod 10 ^ 2)) @ ''M''"
    unfolding m f by simp
  show "length (zfill 2 (str_nat (hundredths n mod 10 ^ 2))) = 2" by (rule l)
  show "\<forall>c \<in> set (str_nat (hundredths n div 10 ^ 2)
                   @ zfill 2 (str_nat (hundredths n mod 10 ^ 2))). is_digit c" by (rule d)
next
  assume n: "1000 \<le> n \<and> n < 1000000"
  then have "0 \<le> fl (of_int n / 1000)" by (intro fl_nonneg) simp
  from format_f_nonneg [OF this, of 1]
  have f: "format_f 1 (fl (of_int n / 1000)) = str_nat (tenths n div 10 ^ 1) @ ''.''
                    @ zfill 1 (str_nat (tenths n mod 10 ^ 1))"
    and l: "length (zfill 1 (str_nat (tenths n mod 10 ^ 1))) = 1"
    and d: "\<forall>c \<in> set (str_nat (tenths n div 10 ^ 1)
                   @ zfill 1 (str_nat (tenths n mod 10 ^ 1))). is_digit c"
    unfolding tenths_def by simp_all
  show m: "fmt_int n = format_f 1 (fl (of_int n / 1000)) @ ''K''"
    using n by (simp add: fmt_int_def)
  show "fmt_int n = str_nat (tenths n div 10 ^ 1) @ ''.''
                    @ zfill 1 (str_nat (tenths n mod 10 ^ 1)) @ ''K''"
    unfolding m f by simp
  show "length (zfill 1 (str_nat (tenths n mod 10 ^ 1))) = 1" by (rule l)
  show "\<forall>c \<in> set (str_nat (tenths n div 10 ^ 1)
                   @ zfill 1 (str_nat (tenths n mod 10 ^ 1))). is_digit c" by (rule d)
next
  assume "- (2 ^ 1000) < n \<and> n < 1000"
  then have "n < 1000" ..
  then show "fmt_int n = str_int n" by (simp add: fmt_int_def)
next
  show "fmt_int 999 = ''999''" by code_simp
  show "fmt_int 1500 = ''1.5K''" by code_simp
  show "fmt_int 2300000 = ''2.30M''" by code_simp
qed

theorem fmt_int_spec_witness:
  "(1000000::int) \<le> 2300000 \<and> (2300000::int) < 2 ^ 1000 \<and> hundredths 2300000 = 230 \<and>
   fmt_int 2300000 = str_nat (230 div 10 ^ 2) @ ''.'' @ zfill 2 (str_nat (230 mod 10 ^ 2)) @ ''M'' \<and>
   (1000::int) \<le> 1500 \<and> (1500::int) < 1000000 \<and> tenths 1500 = 15 \<and>
   fmt_int 1500 = str_nat (15 div 10 ^ 1) @ ''.'' @ zfill 1 (str_nat (15 mod 10 ^ 1)) @ ''K'' \<and>
   - (2 ^ 1000) < (999::int) \<and> (999::int) < 1000 \<and> fmt_int 999 = str_int 999"
proof -
  have a: "(1000000::int) \<le> 2300000 \<and> (2300000::int) < 2 ^ 1000" by simp
  have b: "(1000::int) \<le> 1500 \<and> (1500::int) < 1000000" by simp
  have c: "- (2 ^ 1000) < (999::int) \<and> (999::int) < 1000" by simp
  from fmt_int_spec [of 2300000] a
  have "fmt_int 2300000 = str_nat (hundredths 2300000 div 10 ^ 2) @ ''.''
                    @ zfill 2 (str_nat (hundredths 2300000 mod 10 ^ 2)) @ ''M''"
    by blast
  then have m: "fmt_int 2300000 = str_nat (230 div 10 ^ 2) @ ''.''
      @ zfill 2 (str_nat (230 mod 10 ^ 2)) @ ''M''"
    unfolding hundredths_2300000 .
  from fmt_int_spec [of 1500] b
  have "fmt_int 1500 = str_nat (tenths 1500 div 10 ^ 1) @ ''.''
                    @ zfill 1 (str_nat (tenths 1500 mod 10 ^ 1)) @ ''K''"
    by blast
  then have k: "fmt_int 1500 = str_nat (15 div 10 ^ 1) @ ''.''
      @ zfill 1 (str_nat (15 mod 10 ^ 1)) @ ''K''"
    unfolding tenths_1500 .
  from fmt_int_spec [of 999] c have p: "fmt_int 999 = str_int 999" by blast
  from a b c m k p hundredths_2300000 tenths_1500 show ?thesis by blast
qed

text \<open>
  C5. A click on the card of a KPI \<open>k\<close> is one transition of the state of the view: the
  one callback \<^verbatim>\<open>kpi_click\<close> returns \<open>k\<close> for the store and \<^verbatim>\<open>tab-details\<close> for the tabs,
  and the selected employee is not an output of it. Selecting the employee Mateo and then
  clicking the CTR card gives the state with employee Mateo, KPI \<^verbatim>\<open>ctr\<close> and the
  details tab, on which the details are displayed; \<^verbatim>\<open>render_details\<close> then returns a
  table of exactly three rows, whose months are the month two before the current one, the
  month before it and the current month, in this order.
\<close>

theorem kpi_click_transition:
  "(\<forall>k \<in> set KPI_IDS.
      dispatch st (ClickKpi k) = Inr (st\<lparr>st_selected_kpi := k, st_tabs := ''tab-details''\<rparr>)) \<and>
   dispatch initial_state (SelectEmployee ''Mateo'')
     = Inr (initial_state\<lparr>st_employee := ''Mateo''\<rparr>) \<and>
   dispatch (initial_state\<lparr>st_employee := ''Mateo''\<rparr>) (ClickKpi ''ctr'')
     = Inr \<lparr>st_employee = ''Mateo'', st_selected_kpi = ''ctr'', st_tabs = ''tab-details''\<rparr> \<and>
   toggle_views ''tab-details'' = (False, True) \<and>
   (\<exists>out. render_details G now h ''ctr'' ''Mateo'' = Inr out \<and>
      det_head out = (''Mes'', ''CTR'') \<and>
      length (det_body out) = 3 \<and>
      map fst (det_body out) =
        [strftime_Ym (sub_months (replace_day now 1) 2),
         strftime_Ym (sub_months (replace_day now 1) 1),
         strftime_Ym (sub_months (replace_day now 1) 0)]) \<and>
   month_index (sub_months (replace_day now 1) 2)
     < month_index (sub_months (replace_day now 1) 1) \<and>
   month_index (sub_months (replace_day now 1) 1)
     < month_index (sub_months (replace_day now 1) 0)"
proof (intro conjI)
  show "\<forall>k \<in> set KPI_IDS.
      dispatch st (ClickKpi k) = Inr (st\<lparr>st_selected_kpi := k, st_tabs := ''tab-details''\<rparr>)"
  proof
    fix k assume "k \<in> set KPI_IDS"
    with kpi_click_all have "kpi_click [prop_id_of k] = Inr (k, ''tab-details'')" ..
    then show "dispatch st (ClickKpi k)
        = Inr (st\<lparr>st_selected_kpi := k, st_tabs := ''tab-details''\<rparr>)"
      by (rule dispatch_click)
  qed
next
  show "dispatch initial_state (SelectEmployee ''Mateo'')
     = Inr (initial_state\<lparr>st_employee := ''Mateo''\<rparr>)"
    by (simp add: dispatch_def)
next
  from kpi_click_all ctr_is_kpi
  have "kpi_click [prop_id_of ''ctr''] = Inr (''ctr'', ''tab-details'')" ..
  then have "dispatch (initial_state\<lparr>st_employee := ''Mateo''\<rparr>) (ClickKpi ''ctr'')
     = Inr (initial_state\<lparr>st_employee := ''Mateo'', st_selected_kpi := ''ctr'',
              st_tabs := ''tab-details''\<rparr>)"
    by (simp add: dispatch_click)
  then show "dispatch (initial_state\<lparr>st_employee := ''Mateo''\<rparr>) (ClickKpi ''ctr'')
     = Inr \<lparr>st_employee = ''Mateo'', st_selected_kpi = ''ctr'', st_tabs = ''tab-details''\<rparr>"
    by (simp add: initial_state_def)
next
  show "toggle_views ''tab-details'' = (False, True)" by (simp add: toggle_views_def)
next
  from render_details_total [of G now h "''ctr''" "''Mateo''"] obtain out t c x where
    o: "render_details G now h ''ctr'' ''Mateo'' = Inr out" "get_meta ''ctr'' = Inr (t, c, x)"
       "det_head out = (''Mes'', t)" "map fst (det_body out) = months_of now"
       "length (det_body out) = 3"
    by (elim exE conjE) (rule that, assumption+)
  from o(2) have "t = ''CTR''" unfolding get_meta_ctr by simp
  with o(3) have hd: "det_head out = (''Mes'', ''CTR'')" by simp
  from o(1) hd o(5) o(4) [unfolded months_of_def]
  show "\<exists>out. render_details G now h ''ctr'' ''Mateo'' = Inr out \<and>
      det_head out = (''Mes'', ''CTR'') \<and>
      length (det_body out) = 3 \<and>
      map fst (det_body out) =
        [strftime_Ym (sub_months (replace_day now 1) 2),
         strftime_Ym (sub_months (replace_day now 1) 1),
         strftime_Ym (sub_months (replace_day now 1) 0)]"
    by (intro exI conjI)
next
  show "month_index (sub_months (replace_day now 1) 2)
     < month_index (sub_months (replace_day now 1) 1)"
    by (simp add: month_index_sub_months)
next
  show "month_index (sub_months (replace_day now 1) 1)
     < month_index (sub_months (replace_day now 1) 0)"
    by (simp add: month_index_sub_months)
qed

theorem kpi_click_transition_witness:
  "''ctr'' \<in> set KPI_IDS \<and>
   dispatch initial_state (ClickKpi ''ctr'')
     = Inr \<lparr>st_employee = ''All'', st_selected_kpi = ''ctr'', st_tabs = ''tab-details''\<rparr>"
proof -
  from kpi_click_transition [of initial_state toy_generator toy_now toy_hash]
  have "\<forall>k \<in> set KPI_IDS. dispatch initial_state (ClickKpi k)
          = Inr (initial_state\<lparr>st_selected_kpi := k, st_tabs := ''tab-details''\<rparr>)" ..
  from this ctr_is_kpi
  have "dispatch initial_state (ClickKpi ''ctr'')
          = Inr (initial_state\<lparr>st_selected_kpi := ''ctr'', st_tabs := ''tab-details''\<rparr>)" ..
  then have "dispatch initial_state (ClickKpi ''ctr'')
     = Inr \<lparr>st_employee = ''All'', st_selected_kpi = ''ctr'', st_tabs = ''tab-details''\<rparr>"
    by (simp add: initial_state_def)
  with ctr_is_kpi show ?thesis ..
qed

text \<open>
  C7, as the code has it. No selector value makes a callback fail. An employee that is
  not in \<^verbatim>\<open>EMPLOYEES\<close> gets the counts of \<^verbatim>\<open>"All"\<close>: \<^verbatim>\<open>update_overview\<close> returns for it
  what it returns for \<^verbatim>\<open>"All"\<close>, and \<^verbatim>\<open>render_details\<close> makes its history from the counts
  of \<^verbatim>\<open>"All"\<close> (with the seed taken from the hash of the given name, and the given name in
  the description). A KPI identifier that is not one of the six is treated as \<^verbatim>\<open>"ctr"\<close>
  by \<^verbatim>\<open>render_details\<close>.
\<close>

theorem selector_fallback:
  "(e \<notin> set EMPLOYEES \<longrightarrow> update_overview G e = update_overview G ''All'') \<and>
   (\<exists>ov. update_overview G e = Inr ov) \<and>
   (e \<notin> set EMPLOYEES \<longrightarrow>
      (\<exists>D a df. DATA_BY_EMP G = Inr D \<and> D ''All'' = Some a \<and>
         make_3_months_kpis G now a (history_seed h e) = Inr df \<and>
         render_details G now h k e = details_of df k e)) \<and>
   (k \<notin> set KPI_IDS \<longrightarrow> render_details G now h k e = render_details G now h ''ctr'' e) \<and>
   (\<exists>out. render_details G now h k e = Inr out)"
proof (intro conjI impI)
  assume ne: "e \<notin> set EMPLOYEES"
  from DATA_BY_EMP_ok [of G] obtain D a where
    D: "DATA_BY_EMP G = Inr D" "D ''All'' = Some a"
       "\<forall>e. e \<notin> set EMPLOYEES \<longrightarrow> D e = None"
    by (elim exE conjE) (rule that, assumption+)
  from D(3) have "e \<notin> set EMPLOYEES \<longrightarrow> D e = None" ..
  from this ne have "D e = None" ..
  then have "get_counts D e = Inr a" using D(2) by (simp add: get_counts_def)
  moreover have "get_counts D ''All'' = Inr a" using D(2) by (simp add: get_counts_def)
  ultimately show "update_overview G e = update_overview G ''All''"
    unfolding update_overview_def using D(1) by simp
next
  from update_overview_ok [of G e] obtain ov where "update_overview G e = Inr ov"
    by (elim exE conjE) (rule that, assumption+)
  then show "\<exists>ov. update_overview G e = Inr ov" ..
next
  assume ne: "e \<notin> set EMPLOYEES"
  from render_details_ok [of G e now h] obtain D a counts df where
    r: "DATA_BY_EMP G = Inr D" "D ''All'' = Some a" "e \<notin> set EMPLOYEES \<longrightarrow> counts = a"
       "make_3_months_kpis G now counts (history_seed h e) = Inr df"
       "\<forall>k. render_details G now h k e = details_of df k e"
    by (elim exE conjE) (rule that, assumption+)
  from r(3) ne have "counts = a" ..
  with r(4) have m: "make_3_months_kpis G now a (history_seed h e) = Inr df" by simp
  from r(5) have d: "render_details G now h k e = details_of df k e" ..
  from r(1,2) m d
  show "\<exists>D a df. DATA_BY_EMP G = Inr D \<and> D ''All'' = Some a \<and>
         make_3_months_kpis G now a (history_seed h e) = Inr df \<and>
         render_details G now h k e = details_of df k e"
    by (intro exI conjI)
next
  assume nk: "k \<notin> set KPI_IDS"
  from render_details_ok [of G e now h] obtain df where
    r: "\<forall>k. render_details G now h k e = details_of df k e"
    by (elim exE conjE) (rule that, assumption+)
  from r have 1: "render_details G now h k e = details_of df k e" ..
  from r have 2: "render_details G now h ''ctr'' e = details_of df ''ctr'' e" ..
  have "details_of df k e = details_of df ''ctr'' e"
    unfolding details_of_def get_meta_unknown [OF nk] ..
  with 1 2 show "render_details G now h k e = render_details G now h ''ctr'' e" by simp
next
  from render_details_total [of G now h k e] obtain out where
    "render_details G now h k e = Inr out"
    by (elim exE conjE) (rule that, assumption+)
  then show "\<exists>out. render_details G now h k e = Inr out" ..
qed

theorem selector_fallback_witness:
  "''Nobody'' \<notin> set EMPLOYEES \<and>
   update_overview toy_generator ''Nobody'' = update_overview toy_generator ''All'' \<and>
   ''bogus'' \<notin> set KPI_IDS \<and>
   render_details toy_generator toy_now toy_hash ''bogus'' ''Nobody''
     = render_details toy_generator toy_now toy_hash ''ctr'' ''Nobody''"
proof -
  note t = selector_fallback [of "''Nobody''" toy_generator toy_now toy_hash "''bogus''"]
  from t have "''Nobody'' \<notin> set EMPLOYEES \<longrightarrow>
      update_overview toy_generator ''Nobody'' = update_overview toy_generator ''All''" ..
  from this Nobody_unknown
  have 1: "update_overview toy_generator ''Nobody'' = update_overview toy_generator ''All''" ..
  from t have "''bogus'' \<notin> set KPI_IDS \<longrightarrow>
     render_details toy_generator toy_now toy_hash ''bogus'' ''Nobody''
     = render_details toy_generator toy_now toy_hash ''ctr'' ''Nobody''"
    by (elim conjE)
  from this bogus_unknown
  have 2: "render_details toy_generator toy_now toy_hash ''bogus'' ''Nobody''
     = render_details toy_generator toy_now toy_hash ''ctr'' ''Nobody''" ..
  from Nobody_unknown 1 bogus_unknown 2 show ?thesis by (intro conjI)
qed

theorem kpi_fallback_counterexample:
  "''bogus'' \<notin> set KPI_IDS \<and>
   render_details toy_generator toy_now toy_hash ''bogus'' ''All''
     \<noteq> render_details toy_generator toy_now toy_hash ''impressions'' ''All''"
proof -
  from render_details_total [of toy_generator toy_now toy_hash "''bogus''" "''All''"]
  obtain out1 t1 c1 x1 where
    a: "render_details toy_generator toy_now toy_hash ''bogus'' ''All'' = Inr out1"
       "get_meta ''bogus'' = Inr (t1, c1, x1)" "det_head out1 = (''Mes'', t1)"
    by (elim exE conjE) (rule that, assumption+)
  from render_details_total [of toy_generator toy_now toy_hash "''impressions''" "''All''"]
  obtain out2 t2 c2 x2 where
    b: "render_details toy_generator toy_now toy_hash ''impressions'' ''All'' = Inr out2"
       "get_meta ''impressions'' = Inr (t2, c2, x2)" "det_head out2 = (''Mes'', t2)"
    by (elim exE conjE) (rule that, assumption+)
  have "get_meta ''bogus'' = get_meta ''ctr''" by (rule get_meta_unknown [OF bogus_unknown])
  with a(2) have "t1 = ''CTR''" unfolding get_meta_ctr by simp
  moreover from b(2) have "t2 = ''Impressions''" unfolding get_meta_impressions by simp
  ultimately have "det_head out1 \<noteq> det_head out2" using a(3) b(3) by simp
  then have "out1 \<noteq> out2" by auto
  then have "render_details toy_generator toy_now toy_hash ''bogus'' ''All''
     \<noteq> render_details toy_generator toy_now toy_hash ''impressions'' ''All''"
    unfolding a(1) b(1) by simp
  with bogus_unknown show ?thesis ..
qed

text \<open>
  C4, as the code has it. \<^verbatim>\<open>make_dummy_funnel\<close> reads nothing but its seed: its generator
  is made from the seed by \<^verbatim>\<open>_rng\<close>, so that two calls with the same seed return the same
  list. \<^verbatim>\<open>make_3_months_kpis\<close> reads the clock as well: two calls on the same counts and
  seed return the same rows when the clock is in the same month of the same year at both
  calls; at any two times the rows they return on six counts have the same stage counts
  and the same percentages, and their month labels are the three months that end at the
  month of each call.
\<close>

theorem generators_deterministic:
  "(seed1 = seed2 \<longrightarrow> make_dummy_funnel G seed1 = make_dummy_funnel G seed2) \<and>
   (dt_year now1 = dt_year now2 \<and> dt_month now1 = dt_month now2 \<longrightarrow>
      make_3_months_kpis G now1 counts seed = make_3_months_kpis G now2 counts seed) \<and>
   (length counts = 6 \<longrightarrow>
      (\<exists>rows1 rows2.
         make_3_months_kpis G now1 counts seed = Inr rows1 \<and>
         make_3_months_kpis G now2 counts seed = Inr rows2 \<and>
         map (\<lambda>r. r\<lparr>row_month := []\<rparr>) rows1 = map (\<lambda>r. r\<lparr>row_month := []\<rparr>) rows2 \<and>
         map row_month rows1 = months_of now1 \<and>
         map row_month rows2 = months_of now2))"
proof (intro conjI impI)
  assume "seed1 = seed2"
  then show "make_dummy_funnel G seed1 = make_dummy_funnel G seed2" by (rule arg_cong)
next
  assume "dt_year now1 = dt_year now2 \<and> dt_month now1 = dt_month now2"
  then have "dt_year now1 = dt_year now2" "dt_month now1 = dt_month now2" by simp_all
  then show "make_3_months_kpis G now1 counts seed = make_3_months_kpis G now2 counts seed"
    by (rule make_3_months_kpis_same_month)
next
  assume len: "length counts = 6"
  from make_3_months_kpis_rows [OF len, of G now1 seed] obtain rows1 where
    r1: "make_3_months_kpis G now1 counts seed = Inr rows1"
        "rows1 = map (\<lambda>(m, d). row_of m (month_vals counts d))
                    (zip (months_of now1) (month_drifts G seed))"
        "map row_month rows1 = months_of now1"
    by (elim exE conjE) (rule that, assumption+)
  from make_3_months_kpis_rows [OF len, of G now2 seed] obtain rows2 where
    r2: "make_3_months_kpis G now2 counts seed = Inr rows2"
        "rows2 = map (\<lambda>(m, d). row_of m (month_vals counts d))
                    (zip (months_of now2) (month_drifts G seed))"
        "map row_month rows2 = months_of now2"
    by (elim exE conjE) (rule that, assumption+)
  have "map (\<lambda>r. r\<lparr>row_month := []\<rparr>) rows1 = map (\<lambda>r. r\<lparr>row_month := []\<rparr>) rows2"
    unfolding r1(2) r2(2) by (rule rows_erase_month) simp_all
  with r1(1,3) r2(1,3)
  show "\<exists>rows1 rows2.
         make_3_months_kpis G now1 counts seed = Inr rows1 \<and>
         make_3_months_kpis G now2 counts seed = Inr rows2 \<and>
         map (\<lambda>r. r\<lparr>row_month := []\<rparr>) rows1 = map (\<lambda>r. r\<lparr>row_month := []\<rparr>) rows2 \<and>
         map row_month rows1 = months_of now1 \<and>
         map row_month rows2 = months_of now2"
    by (intro exI conjI)
qed

theorem generators_deterministic_witness:
  "(11::nat) = 11 \<and> make_dummy_funnel toy_generator 11 = make_dummy_funnel toy_generator 11 \<and>
   dt_year toy_now = dt_year (toy_now\<lparr>dt_day := 28\<rparr>) \<and>
   dt_month toy_now = dt_month (toy_now\<lparr>dt_day := 28\<rparr>) \<and>
   make_3_months_kpis toy_generator toy_now [100, 50, 20, 10, 5, 1] 77
     = make_3_months_kpis toy_generator (toy_now\<lparr>dt_day := 28\<rparr>) [100, 50, 20, 10, 5, 1] 77 \<and>
   length [100, 50, 20, 10, 5, 1 :: int] = 6"
proof -
  note t = generators_deterministic [of 11 11 toy_generator toy_now "toy_now\<lparr>dt_day := 28\<rparr>"
      "[100, 50, 20, 10, 5, 1]" 77]
  have y: "dt_year toy_now = dt_year (toy_now\<lparr>dt_day := 28\<rparr>) \<and>
           dt_month toy_now = dt_month (toy_now\<lparr>dt_day := 28\<rparr>)" by simp
  from t have "dt_year toy_now = dt_year (toy_now\<lparr>dt_day := 28\<rparr>) \<and>
      dt_month toy_now = dt_month (toy_now\<lparr>dt_day := 28\<rparr>) \<longrightarrow>
      make_3_months_kpis toy_generator toy_now [100, 50, 20, 10, 5, 1] 77
     = make_3_months_kpis toy_generator (toy_now\<lparr>dt_day := 28\<rparr>) [100, 50, 20, 10, 5, 1] 77"
    by (elim conjE)
  from this y have "make_3_months_kpis toy_generator toy_now [100, 50, 20, 10, 5, 1] 77
     = make_3_months_kpis toy_generator (toy_now\<lparr>dt_day := 28\<rparr>) [100, 50, 20, 10, 5, 1] 77" ..
  with y show ?thesis by simp
qed

theorem month_labels_counterexample:
  "make_3_months_kpis toy_generator toy_now [100, 50, 20, 10, 5, 1] 77
   \<noteq> make_3_months_kpis toy_generator (toy_now\<lparr>dt_month := 2\<rparr>) [100, 50, 20, 10, 5, 1] 77"
proof
  assume eq: "make_3_months_kpis toy_generator toy_now [100, 50, 20, 10, 5, 1] 77
   = make_3_months_kpis toy_generator (toy_now\<lparr>dt_month := 2\<rparr>) [100, 50, 20, 10, 5, 1] 77"
  have len: "length [100, 50, 20, 10, 5, 1 :: int] = 6" by simp
  from make_3_months_kpis_rows [OF len, of toy_generator toy_now 77] obtain rows1 where
    r1: "make_3_months_kpis toy_generator toy_now [100, 50, 20, 10, 5, 1] 77 = Inr rows1"
        "map row_month rows1 = months_of toy_now"
    by (elim exE conjE) (rule that, assumption+)
  from make_3_months_kpis_rows [OF len, of toy_generator "toy_now\<lparr>dt_month := 2\<rparr>" 77]
  obtain rows2 where
    r2: "make_3_months_kpis toy_generator (toy_now\<lparr>dt_month := 2\<rparr>) [100, 50, 20, 10, 5, 1] 77
           = Inr rows2"
        "map row_month rows2 = months_of (toy_now\<lparr>dt_month := 2\<rparr>)"
    by (elim exE conjE) (rule that, assumption+)
  from eq r1(1) r2(1) have "rows1 = rows2" by simp
  with r1(2) r2(2) have "months_of toy_now = months_of (toy_now\<lparr>dt_month := 2\<rparr>)" by simp
  with toy_months_differ show False ..
qed

text \<open>
  C8. \<^verbatim>\<open>make_3_months_kpis\<close> makes its three rows with the three multipliers it draws,
  one a month. The multiplier of the month of index \<open>idx\<close> is the float sum of the base
  \<^verbatim>\<open>0.90 + 0.06 * idx\<close> and of the noise clipped to \<^verbatim>\<open>[-0.05, 0.05]\<close>; so it lies between
  the floats \<^verbatim>\<open>base - 0.05\<close> and \<^verbatim>\<open>base + 0.05\<close>, which are the real numbers
  \<open>0.85 + 0.06 idx\<close> and \<open>0.95 + 0.06 idx\<close> up to the rounding of binary64 (less than
  \<open>10\<^sup>-\<^sup>1\<^sup>5\<close>). The three bases are the floats \<^verbatim>\<open>0.90\<close>, \<^verbatim>\<open>0.96\<close> and \<^verbatim>\<open>1.02\<close>, and
  they increase strictly.
\<close>

theorem drift_multiplier_bounds:
  "make_3_months_kpis G now counts seed =
     collect (\<lambda>(m, d). month_row m (map float_of_int counts) d)
       (zip (months_of now) (month_drifts G seed)) \<and>
   (\<exists>z0 z1 z2. month_drifts G seed = [drift_of 0 z0, drift_of 1 z1, drift_of 2 z2]) \<and>
   (idx < 3 \<longrightarrow>
      drift_of idx z = fadd (drift_base idx) (clip z (- fl (5/100)) (fl (5/100))) \<and>
      - fl (5/100) \<le> clip z (- fl (5/100)) (fl (5/100)) \<and>
      clip z (- fl (5/100)) (fl (5/100)) \<le> fl (5/100) \<and>
      fadd (drift_base idx) (- fl (5/100)) \<le> drift_of idx z \<and>
      drift_of idx z \<le> fadd (drift_base idx) (fl (5/100)) \<and>
      (90 + 6 * real idx) / 100 - 5/100 - 1/10^15 \<le> drift_of idx z \<and>
      drift_of idx z \<le> (90 + 6 * real idx) / 100 + 5/100 + 1/10^15) \<and>
   drift_base 0 = fl (90/100) \<and> drift_base 1 = fl (96/100) \<and> drift_base 2 = fl (102/100) \<and>
   drift_base 0 < drift_base 1 \<and> drift_base 1 < drift_base 2"
proof (intro conjI impI)
  show "make_3_months_kpis G now counts seed =
     collect (\<lambda>(m, d). month_row m (map float_of_int counts) d)
       (zip (months_of now) (month_drifts G seed))"
    by (rule make_3_months_kpis_collect)
  show "\<exists>z0 z1 z2. month_drifts G seed = [drift_of 0 z0, drift_of 1 z1, drift_of 2 z2]"
    by (rule month_drifts_shape)
  show "drift_base 0 = fl (90/100)" by (rule drift_base_0)
  show "drift_base 1 = fl (96/100)" by (rule drift_base_1)
  show "drift_base 2 = fl (102/100)" by (rule drift_base_2)
  show "drift_base 0 < drift_base 1" using drift_base_incr ..
  show "drift_base 1 < drift_base 2" using drift_base_incr ..
next
  show "drift_of idx z = fadd (drift_base idx) (clip z (- fl (5/100)) (fl (5/100)))"
    by (simp add: drift_of_def)
next
  have le: "- fl (5/100) \<le> fl (5/100)" using a05_nonneg by linarith
  from clip_bounds [OF le, of z]
  show "- fl (5/100) \<le> clip z (- fl (5/100)) (fl (5/100))"
    and "clip z (- fl (5/100)) (fl (5/100)) \<le> fl (5/100)" by simp_all
next
  from drift_of_bounds [of idx z]
  show "fadd (drift_base idx) (- fl (5/100)) \<le> drift_of idx z"
    and "drift_of idx z \<le> fadd (drift_base idx) (fl (5/100))" by simp_all
next
  assume "idx < 3"
  then consider "idx = 0" | "idx = 1" | "idx = 2" by linarith
  then show "(90 + 6 * real idx) / 100 - 5/100 - 1/10^15 \<le> drift_of idx z"
  proof cases
    case 1
    with drift_of_bounds [of 0 z] drift_real_bounds_0 show ?thesis by simp
  next
    case 2
    with drift_of_bounds [of 1 z] drift_real_bounds_1 show ?thesis by simp
  next
    case 3
    with drift_of_bounds [of 2 z] drift_real_bounds_2 show ?thesis by simp
  qed
next
  assume "idx < 3"
  then consider "idx = 0" | "idx = 1" | "idx = 2" by linarith
  then show "drift_of idx z \<le> (90 + 6 * real idx) / 100 + 5/100 + 1/10^15"
  proof cases
    case 1
    with drift_of_bounds [of 0 z] drift_real_bounds_0 show ?thesis by simp
  next
    case 2
    with drift_of_bounds [of 1 z] drift_real_bounds_1 show ?thesis by simp
  next
    case 3
    with drift_of_bounds [of 2 z] drift_real_bounds_2 show ?thesis by simp
  qed
qed

theorem drift_multiplier_bounds_witness:
  "(0::nat) < 3 \<and>
   fadd (drift_base 0) (- fl (5/100)) \<le> drift_of 0 (6/100) \<and>
   drift_of 0 (6/100) \<le> fadd (drift_base 0) (fl (5/100)) \<and>
   drift_of 0 (6/100) \<le> (90 + 6 * real 0) / 100 + 5/100 + 1/10^15"
proof -
  have z: "(0::nat) < 3" by simp
  note t = drift_multiplier_bounds [of toy_generator toy_now "[100, 50, 20, 10, 5, 1]" 77 0 "6/100"]
  from t have "(0::nat) < 3 \<longrightarrow>
      drift_of 0 (6/100) = fadd (drift_base 0) (clip (6/100) (- fl (5/100)) (fl (5/100))) \<and>
      - fl (5/100) \<le> clip (6/100) (- fl (5/100)) (fl (5/100)) \<and>
      clip (6/100) (- fl (5/100)) (fl (5/100)) \<le> fl (5/100) \<and>
      fadd (drift_base 0) (- fl (5/100)) \<le> drift_of 0 (6/100) \<and>
      drift_of 0 (6/100) \<le> fadd (drift_base 0) (fl (5/100)) \<and>
      (90 + 6 * real 0) / 100 - 5/100 - 1/10^15 \<le> drift_of 0 (6/100) \<and>
      drift_of 0 (6/100) \<le> (90 + 6 * real 0) / 100 + 5/100 + 1/10^15"
    by (elim conjE)
  from this z have "drift_of 0 (6/100) = fadd (drift_base 0) (clip (6/100) (- fl (5/100)) (fl (5/100))) \<and>
      - fl (5/100) \<le> clip (6/100) (- fl (5/100)) (fl (5/100)) \<and>
      clip (6/100) (- fl (5/100)) (fl (5/100)) \<le> fl (5/100) \<and>
      fadd (drift_base 0) (- fl (5/100)) \<le> drift_of 0 (6/100) \<and>
      drift_of 0 (6/100) \<le> fadd (drift_base 0) (fl (5/100)) \<and>
      (90 + 6 * real 0) / 100 - 5/100 - 1/10^15 \<le> drift_of 0 (6/100) \<and>
      drift_of 0 (6/100) \<le> (90 + 6 * real 0) / 100 + 5/100 + 1/10^15" ..
  with z show ?thesis by (elim conjE) (intro conjI)
qed

end
